theory Spec2Isabelle
  imports Main "HOL-Library.Word"
begin

section \<open>JavaScript strings\<close>

text \<open>
  A JavaScript string is a sequence of 16-bit UTF-16 code units. String literals of the
  script are written \<open>js ''...''\<close>; all of them are ASCII.
\<close>

type_synonym jsstring = "16 word list"

definition js :: "string \<Rightarrow> jsstring" where
  "js s = map of_char s"

text \<open>
  \<open>String.prototype.trim\<close>: removes WhiteSpace and LineTerminator code units from
  both ends (TAB, LF, VT, FF, CR, SP, NBSP, U+1680, U+2000..U+200A, U+2028, U+2029,
  U+202F, U+205F, U+3000, U+FEFF).
\<close>

definition is_space :: "16 word \<Rightarrow> bool" where
  "is_space c =
     (c \<in> {0x09, 0x0A, 0x0B, 0x0C, 0x0D, 0x20, 0xA0, 0x1680, 0x2028, 0x2029, 0x202F,
            0x205F, 0x3000, 0xFEFF}
      \<or> (0x2000 \<le> c \<and> c \<le> 0x200A))"

definition trim :: "jsstring \<Rightarrow> jsstring" where
  "trim s = rev (dropWhile is_space (rev (dropWhile is_space s)))"

text \<open>\<open>String.prototype.includes\<close> with a literal needle.\<close>

fun includes_str :: "jsstring \<Rightarrow> jsstring \<Rightarrow> bool" where
  "includes_str [] needle = (needle = [])"
| "includes_str (c # cs) needle =
     (take (length needle) (c # cs) = needle \<or> includes_str cs needle)"

text \<open>\<open>String.prototype.split\<close> on a one-unit separator, and \<open>Array.prototype.join\<close>.\<close>

fun split :: "16 word \<Rightarrow> jsstring \<Rightarrow> jsstring list" where
  "split sep [] = [[]]"
| "split sep (c # cs) =
     (if c = sep then [] # split sep cs
      else (case split sep cs of
              [] \<Rightarrow> [[c]]
            | seg # segs \<Rightarrow> (c # seg) # segs))"

fun join :: "jsstring \<Rightarrow> jsstring list \<Rightarrow> jsstring" where
  "join sep [] = []"
| "join sep [x] = x"
| "join sep (x # y # ys) = x @ sep @ join sep (y # ys)"

subsection \<open>encodeURIComponent\<close>

text \<open>
  The built-in \<open>encodeURIComponent\<close> (ECMAScript, abstract operation Encode): a code unit
  of the unreserved set is copied; any other code point is written as the \<open>%XX\<close> escapes
  of its UTF-8 octets, in upper-case hexadecimal. An unpaired surrogate raises URIError,
  which is the result \<open>None\<close>.
\<close>

definition is_unescaped :: "16 word \<Rightarrow> bool" where
  "is_unescaped c =
     ((0x41 \<le> c \<and> c \<le> 0x5A) \<or> (0x61 \<le> c \<and> c \<le> 0x7A) \<or> (0x30 \<le> c \<and> c \<le> 0x39)
      \<or> c \<in> set (js ''-_.!~*'') \<or> c = 0x27 \<or> c \<in> set (js ''()''))"

definition is_leading_surrogate :: "16 word \<Rightarrow> bool" where
  "is_leading_surrogate c = (0xD800 \<le> c \<and> c \<le> 0xDBFF)"

definition is_trailing_surrogate :: "16 word \<Rightarrow> bool" where
  "is_trailing_surrogate c = (0xDC00 \<le> c \<and> c \<le> 0xDFFF)"

definition surrogate_pair_to_code_point :: "16 word \<Rightarrow> 16 word \<Rightarrow> nat" where
  "surrogate_pair_to_code_point lead trail =
     (unat lead - 0xD800) * 0x400 + (unat trail - 0xDC00) + 0x10000"

text \<open>
  The conversion of a string to a USVString (Web IDL), which a FormData applies to the
  names and values appended to it: a surrogate that is not part of a pair becomes U+FFFD.
\<close>

fun to_usv :: "jsstring \<Rightarrow> jsstring" where
  "to_usv [] = []"
| "to_usv (c # cs) =
     (if is_trailing_surrogate c then 0xFFFD # to_usv cs
      else if is_leading_surrogate c then
        (case cs of
           [] \<Rightarrow> [0xFFFD]
         | d # ds \<Rightarrow> if is_trailing_surrogate d then c # d # to_usv ds else 0xFFFD # to_usv cs)
      else c # to_usv cs)"

definition utf8 :: "nat \<Rightarrow> nat list" where
  "utf8 cp =
     (if cp < 0x80 then [cp]
      else if cp < 0x800 then [0xC0 + cp div 0x40, 0x80 + cp mod 0x40]
      else if cp < 0x10000 then
        [0xE0 + cp div 0x1000, 0x80 + cp div 0x40 mod 0x40, 0x80 + cp mod 0x40]
      else
        [0xF0 + cp div 0x40000, 0x80 + cp div 0x1000 mod 0x40, 0x80 + cp div 0x40 mod 0x40,
         0x80 + cp mod 0x40])"

definition hexdigit :: "nat \<Rightarrow> 16 word" where
  "hexdigit n = (if n < 10 then of_nat (0x30 + n) else of_nat (0x37 + n))"

definition pct :: "nat \<Rightarrow> jsstring" where
  "pct octet = [0x25, hexdigit (octet div 16), hexdigit (octet mod 16)]"

definition escape :: "nat \<Rightarrow> jsstring" where
  "escape cp = concat (map pct (utf8 cp))"

fun encodeURIComponent :: "jsstring \<Rightarrow> jsstring option" where
  "encodeURIComponent [] = Some []"
| "encodeURIComponent (c # cs) =
     (if is_unescaped c then map_option ((#) c) (encodeURIComponent cs)
      else if is_trailing_surrogate c then None
      else if is_leading_surrogate c then
        (case cs of
           [] \<Rightarrow> None
         | d # ds \<Rightarrow>
             if is_trailing_surrogate d
             then map_option ((@) (escape (surrogate_pair_to_code_point c d)))
                    (encodeURIComponent ds)
             else None)
      else map_option ((@) (escape (unat c))) (encodeURIComponent cs))"

text \<open>
  \<open>.replace(/%2F/g, '/')\<close>: every leftmost non-overlapping occurrence of the three code
  units \<open>%2F\<close> becomes \<open>/\<close>; the match is case-sensitive.
\<close>

fun replace_pct2F :: "jsstring \<Rightarrow> jsstring" where
  "replace_pct2F [] = []"
| "replace_pct2F (c # cs) =
     (if take 3 (c # cs) = js ''%2F'' then js ''/'' @ replace_pct2F (drop 2 cs)
      else c # replace_pct2F cs)"

text \<open>The expression of \<open>moveSource\<close>, line 111.\<close>

definition encodedSourcePath :: "jsstring \<Rightarrow> jsstring option" where
  "encodedSourcePath sourcePath = map_option replace_pct2F (encodeURIComponent sourcePath)"

text \<open>
  The encoding as the specification words it: each \<open>/\<close>-separated segment is encoded on
  its own and the results are joined with \<open>/\<close>.
\<close>

definition encode_each_segment :: "jsstring \<Rightarrow> jsstring option" where
  "encode_each_segment sourcePath =
     map_option (join (js ''/'')) (those (map encodeURIComponent (split 0x2F sourcePath)))"

section \<open>Values, source items, requests and responses\<close>

text \<open>
  The values a field of a listed item holds: absent (\<open>undefined\<close>), \<open>null\<close>, a boolean
  or a string; numbers, arrays and nested objects in these fields are outside the items
  modelled. \<open>truthy\<close> is JavaScript's ToBoolean and \<open>to_string\<close> its ToString, as a
  template literal and \<open>encodeURIComponent\<close> apply it.
\<close>

datatype jsval = JUndefined | JNull | JBool bool | JString jsstring

fun truthy :: "jsval \<Rightarrow> bool" where
  "truthy JUndefined = False"
| "truthy JNull = False"
| "truthy (JBool b) = b"
| "truthy (JString s) = (s \<noteq> [])"

fun to_string :: "jsval \<Rightarrow> jsstring" where
  "to_string JUndefined = js ''undefined''"
| "to_string JNull = js ''null''"
| "to_string (JBool b) = (if b then js ''true'' else js ''false'')"
| "to_string (JString s) = s"

text \<open>A source item of the listing: the three properties the script reads.\<close>

record source =
  name :: jsval
  path :: jsval
  ext :: jsval

text \<open>The \<open>{name, path}\<close> pair \<open>createBackupFolder\<close> returns.\<close>

record backup =
  backup_name :: jsstring
  backup_path :: jsstring

text \<open>
  A call of \<open>fetch\<close>: the URL and the init object (\<open>method\<close> and \<open>body\<close> are absent
  when the options do not give them; a body is a FormData, a list of fields).
\<close>

record request =
  url :: jsstring
  http_method :: "jsstring option"
  headers :: "(jsstring \<times> jsstring) list"
  body :: "(jsstring \<times> jsstring) list option"

record options =
  opt_method :: "jsstring option"
  opt_body :: "(jsstring \<times> jsstring) list option"

text \<open>
  A parsed JSON body, as far as \<open>listSources\<close> looks at it: \<open>null\<close>, an array of items,
  an object (with its \<open>sources\<close> array when it has one), or a number, boolean or string.
\<close>

datatype json = Json_null | Json_array "source list" | Json_object "source list option"
  | Json_scalar

text \<open>
  A response: the status, the \<open>content-type\<close> header when present, what \<open>res.text()\<close>
  gives, and what \<open>res.json()\<close> gives (\<open>None\<close> when the body does not parse).
\<close>

record response =
  status :: nat
  content_type :: "jsstring option"
  body_text :: jsstring
  body_json :: "json option"

datatype fetch_result = Network_error jsstring | Response response

text \<open>\<open>res.ok\<close>: the status is in the range 200 to 299.\<close>

definition ok :: "response \<Rightarrow> bool" where
  "ok res = (200 \<le> status res \<and> status res \<le> 299)"

datatype payload = Payload_null | Payload_json json | Payload_text jsstring

text \<open>The exceptions the script can raise or meet, each with what its message is built from.\<close>

datatype error =
    Error jsstring
  | Api_error nat jsstring
  | TypeError_null_sources
  | URIError
  | SyntaxError
  | Fetch_failed jsstring
  | Token_failed jsstring

text \<open>The lines written through \<open>core.info\<close>, \<open>core.warning\<close> and \<open>core.error\<close>.\<close>

datatype log_entry =
    Info_starting jsstring jsstring jsstring
  | Info_found nat
  | Info_sources_found
  | Info_source nat source
  | Info_no_sources
  | Info_created jsstring
  | Info_skipping_reserved jsval
  | Warning_missing_properties source
  | Info_moved jsval jsstring
  | Warning_move_failed jsval jsstring error
  | Info_completed nat jsstring
  | Warning_api_error nat jsstring
  | Error_backup_failed error

datatype level = Info | Warning | Failure

fun level_of :: "log_entry \<Rightarrow> level" where
  "level_of (Warning_missing_properties s) = Warning"
| "level_of (Warning_move_failed p b e) = Warning"
| "level_of (Warning_api_error n t) = Warning"
| "level_of (Error_backup_failed e) = Failure"
| "level_of _ = Info"

datatype run_output = Backup_folder_name jsstring | Error_message error

text \<open>The operations of the API client, recorded when they are called.\<close>

datatype call =
    ListSources jsstring jsstring jsstring
  | CreateBackupFolder jsstring jsstring jsstring
  | MoveSource jsval jsstring

fun is_move :: "call \<Rightarrow> bool" where
  "is_move (MoveSource p d) = True"
| "is_move _ = False"

section \<open>The clock\<close>

text \<open>
  \<open>new Date()\<close>, as the UTC calendar fields \<open>toISOString\<close> prints. The year is printed
  with four digits from 0 to 9999 and as a sign and six digits otherwise.
\<close>

record date =
  year :: int
  month :: nat
  day :: nat
  hours :: nat
  minutes :: nat
  seconds :: nat
  milliseconds :: nat

fun decimal :: "nat \<Rightarrow> jsstring" where
  "decimal n = (if n < 10 then [of_nat (0x30 + n)] else decimal (n div 10) @ [of_nat (0x30 + n mod 10)])"

definition padded :: "nat \<Rightarrow> nat \<Rightarrow> jsstring" where
  "padded n k = replicate (k - length (decimal n)) 0x30 @ decimal n"

definition toISOString :: "date \<Rightarrow> jsstring" where
  "toISOString d =
     (if 0 \<le> year d \<and> year d \<le> 9999 then padded (nat (year d)) 4
      else (if 0 < year d then js ''+'' else js ''-'') @ padded (nat \<bar>year d\<bar>) 6)
     @ js ''-'' @ padded (month d) 2 @ js ''-'' @ padded (day d) 2
     @ js ''T'' @ padded (hours d) 2 @ js '':'' @ padded (minutes d) 2
     @ js '':'' @ padded (seconds d) 2 @ js ''.'' @ padded (milliseconds d) 3 @ js ''Z''"

text \<open>\<open>.replace(/[:.]/g, '-')\<close>\<close>

definition replace_colon_dot :: "jsstring \<Rightarrow> jsstring" where
  "replace_colon_dot s = map (\<lambda>c. if c = 0x3A \<or> c = 0x2E then 0x2D else c) s"

section \<open>The environment and the state of a run\<close>

text \<open>
  Modelled from the spec: \<open>getAccessTokenWithFallback\<close> of \<open>ims-token-helper.js\<close> is a
  black box that returns a token or fails; its result is a parameter of the run.
\<close>

datatype token_result = Token_rejected jsstring | Token_value jsval

text \<open>
  What a run reads from outside: the three inputs as \<open>core.getInput\<close> returns them, the
  token helper's result, the clock, and the server, which answers a request knowing the
  requests made before it.
\<close>

record env =
  input_org :: "jsstring option"
  input_repo :: "jsstring option"
  input_path :: "jsstring option"
  access_token :: token_result
  now :: date
  fetch :: "request list \<Rightarrow> request \<Rightarrow> fetch_result"

text \<open>
  What a run does to the outside: the requests sent through \<open>fetch\<close>, the lines logged, the
  outputs set and the failure status. \<open>calls\<close> keeps, for the properties, the operations
  of the API client in the order the run calls them.
\<close>

record state =
  requests :: "request list"
  calls :: "call list"
  logs :: "log_entry list"
  outputs :: "run_output list"
  failed :: "error option"

definition init :: state where
  "init = \<lparr>requests = [], calls = [], logs = [], outputs = [], failed = None\<rparr>"

definition log_entry :: "log_entry \<Rightarrow> state \<Rightarrow> state" where
  "log_entry l st = st\<lparr>logs := logs st @ [l]\<rparr>"

definition called :: "call \<Rightarrow> state \<Rightarrow> state" where
  "called c st = st\<lparr>calls := calls st @ [c]\<rparr>"

definition setOutput :: "run_output \<Rightarrow> state \<Rightarrow> state" where
  "setOutput v st = st\<lparr>outputs := outputs st @ [v]\<rparr>"

definition setFailed :: "error \<Rightarrow> state \<Rightarrow> state" where
  "setFailed err st = st\<lparr>failed := Some err\<rparr>"

section \<open>The API client\<close>

definition DA_ADMIN_API :: jsstring where
  "DA_ADMIN_API = js ''https://admin.da.live''"

text \<open>
  The request \<open>daFetch\<close> sends: the bearer token and \<open>Accept\<close> always, \<open>Content-Type\<close>
  unless the body is a FormData, then the options spread over it.
\<close>

definition request_of :: "jsstring \<Rightarrow> jsstring \<Rightarrow> options \<Rightarrow> request" where
  "request_of token endpoint opts =
     (let defaultHeaders =
            [(js ''Authorization'', js ''Bearer '' @ token),
             (js ''Accept'', js ''application/json'')]
            @ (if opt_body opts = None then [(js ''Content-Type'', js ''application/json'')]
               else [])
      in \<lparr>url = DA_ADMIN_API @ endpoint, http_method = opt_method opts,
          headers = defaultHeaders, body = opt_body opts\<rparr>)"

text \<open>
  \<open>daFetch\<close>: one request. A rejected \<open>fetch\<close> and a status outside 200..299 throw, the
  latter after a warning; status 204 gives \<open>null\<close>; a JSON content type gives the parsed
  body; anything else gives the text.
\<close>

definition daFetch ::
  "env \<Rightarrow> jsstring \<Rightarrow> jsstring \<Rightarrow> options \<Rightarrow> state \<Rightarrow> (error + payload) \<times> state" where
  "daFetch e token endpoint opts st =
     (let req = request_of token endpoint opts;
          st1 = st\<lparr>requests := requests st @ [req]\<rparr>
      in case fetch e (requests st) req of
           Network_error m \<Rightarrow> (Inl (Fetch_failed m), st1)
         | Response res \<Rightarrow>
             if \<not> ok res then
               (Inl (Api_error (status res) (body_text res)),
                log_entry (Warning_api_error (status res) (body_text res)) st1)
             else if status res = 204 then (Inr Payload_null, st1)
             else
               (case content_type res of
                  None \<Rightarrow> (Inr (Payload_text (body_text res)), st1)
                | Some ct \<Rightarrow>
                    if includes_str ct (js ''application/json'') then
                      (case body_json res of
                         None \<Rightarrow> (Inl SyntaxError, st1)
                       | Some j \<Rightarrow> (Inr (Payload_json j), st1))
                    else (Inr (Payload_text (body_text res)), st1)))"

text \<open>
  \<open>listSources\<close>: an array is returned as it is; of anything else the \<open>sources\<close> property
  is read, which throws a TypeError on \<open>null\<close> and is absent on a string or a number.
\<close>

definition list_endpoint :: "jsstring \<Rightarrow> jsstring \<Rightarrow> jsstring \<Rightarrow> jsstring" where
  "list_endpoint org repo p = js ''/list/'' @ org @ js ''/'' @ repo @ js ''/'' @ p"

definition no_options :: options where
  "no_options = \<lparr>opt_method = None, opt_body = None\<rparr>"

definition listSources ::
  "env \<Rightarrow> jsstring \<Rightarrow> jsstring \<Rightarrow> jsstring \<Rightarrow> jsstring \<Rightarrow> state
   \<Rightarrow> (error + source list) \<times> state" where
  "listSources e token org repo p st =
     (case daFetch e token (list_endpoint org repo p) no_options
             (called (ListSources org repo p) st) of
        (Inl err, st1) \<Rightarrow> (Inl err, st1)
      | (Inr data, st1) \<Rightarrow>
          (case data of
             Payload_json (Json_array items) \<Rightarrow> (Inr items, st1)
           | Payload_json (Json_object (Some items)) \<Rightarrow> (Inr items, st1)
           | Payload_json (Json_object None) \<Rightarrow> (Inr [], st1)
           | Payload_json Json_scalar \<Rightarrow> (Inr [], st1)
           | Payload_json Json_null \<Rightarrow> (Inl TypeError_null_sources, st1)
           | Payload_text t \<Rightarrow> (Inr [], st1)
           | Payload_null \<Rightarrow> (Inl TypeError_null_sources, st1)))"

definition timestamp :: "date \<Rightarrow> jsstring" where
  "timestamp d = take 19 (replace_colon_dot (toISOString d))"

definition createBackupFolder ::
  "env \<Rightarrow> jsstring \<Rightarrow> jsstring \<Rightarrow> jsstring \<Rightarrow> jsstring \<Rightarrow> state
   \<Rightarrow> (error + backup) \<times> state" where
  "createBackupFolder e token org repo parentPath st =
     (let backupName = js ''backup-'' @ timestamp (now e);
          backupPath = (if parentPath \<noteq> [] then parentPath @ js ''/'' @ backupName
                        else backupName);
          endpoint = js ''/source/'' @ org @ js ''/'' @ repo @ js ''/'' @ backupPath
      in case daFetch e token endpoint \<lparr>opt_method = Some (js ''POST''), opt_body = None\<rparr>
                (called (CreateBackupFolder org repo parentPath) st) of
           (Inl err, st1) \<Rightarrow> (Inl err, st1)
         | (Inr data, st1) \<Rightarrow>
             (Inr \<lparr>backup_name = backupName, backup_path = backupPath\<rparr>,
              log_entry (Info_created backupName) st1))"

text \<open>\<open>FormData.prototype.append\<close> with a string value: both arguments are USVStrings.\<close>

definition formData_append ::
  "(jsstring \<times> jsstring) list \<Rightarrow> jsstring \<Rightarrow> jsstring \<Rightarrow> (jsstring \<times> jsstring) list" where
  "formData_append formData field v = formData @ [(to_usv field, to_usv v)]"

definition moveSource ::
  "env \<Rightarrow> jsstring \<Rightarrow> jsval \<Rightarrow> jsstring \<Rightarrow> state \<Rightarrow> (error + unit) \<times> state" where
  "moveSource e token sourcePath dest st =
     (let st0 = called (MoveSource sourcePath dest) st
      in case encodedSourcePath (to_string sourcePath) of
           None \<Rightarrow> (Inl URIError, st0)
         | Some encoded \<Rightarrow>
             (case daFetch e token (js ''/move'' @ encoded)
                     \<lparr>opt_method = Some (js ''POST''),
                        opt_body = Some (formData_append [] (js ''destination'') dest)\<rparr>
                     st0 of
                (Inl err, st1) \<Rightarrow> (Inl err, st1)
              | (Inr data, st1) \<Rightarrow> (Inr (), st1)))"

section \<open>The run\<close>

definition reservedItems :: "jsval list" where
  "reservedItems = [JString (js ''tools''), JString (js ''block-collection'')]"

definition fileName :: "source \<Rightarrow> jsstring" where
  "fileName s =
     (if truthy (ext s) then to_string (name s) @ js ''.'' @ to_string (ext s)
      else to_string (name s))"

definition destPath :: "jsstring \<Rightarrow> jsstring \<Rightarrow> backup \<Rightarrow> source \<Rightarrow> jsstring" where
  "destPath org repo b s =
     js ''/'' @ org @ js ''/'' @ repo @ js ''/'' @ backup_path b @ js ''/'' @ fileName s"

text \<open>The \<open>for\<close> loop of \<open>run\<close>, lines 172 to 196, with \<open>movedCount\<close> as an accumulator.\<close>

fun move_loop ::
  "env \<Rightarrow> jsstring \<Rightarrow> jsstring \<Rightarrow> jsstring \<Rightarrow> backup \<Rightarrow> source list \<Rightarrow> nat \<Rightarrow> state
   \<Rightarrow> nat \<times> state" where
  "move_loop e token org repo b [] movedCount st = (movedCount, st)"
| "move_loop e token org repo b (s # rest) movedCount st =
     (if name s \<in> set reservedItems then
        move_loop e token org repo b rest movedCount
          (log_entry (Info_skipping_reserved (name s)) st)
      else if \<not> truthy (path s) \<or> \<not> truthy (name s) then
        move_loop e token org repo b rest movedCount
          (log_entry (Warning_missing_properties s) st)
      else
        (case moveSource e token (path s) (destPath org repo b s) st of
           (Inr u, st1) \<Rightarrow>
             move_loop e token org repo b rest (movedCount + 1)
               (log_entry (Info_moved (path s) (destPath org repo b s)) st1)
         | (Inl err, st1) \<Rightarrow>
             move_loop e token org repo b rest movedCount
               (log_entry (Warning_move_failed (path s) (backup_name b) err) st1)))"

text \<open>
  Input validation, lines 131 to 137: \<open>org\<close> and \<open>repo\<close> are trimmed when present and
  must then be non-empty; \<open>path\<close> defaults to the empty string.
\<close>

definition get_inputs :: "env \<Rightarrow> error + jsstring \<times> jsstring \<times> jsstring" where
  "get_inputs e =
     (let org = map_option trim (input_org e);
          repo = map_option trim (input_repo e);
          p = (case input_path e of None \<Rightarrow> [] | Some raw \<Rightarrow> trim raw)
      in case (org, repo) of
           (Some org', Some repo') \<Rightarrow>
             if org' = [] \<or> repo' = [] then
               Inl (Error (js ''Both org and repo inputs are required''))
             else Inr (org', repo', p)
         | _ \<Rightarrow> Inl (Error (js ''Both org and repo inputs are required'')))"

text \<open>The token, lines 142 to 147.\<close>

definition get_token :: "env \<Rightarrow> error + jsstring" where
  "get_token e =
     (case access_token e of
        Token_rejected m \<Rightarrow> Inl (Token_failed m)
      | Token_value tv \<Rightarrow>
          if \<not> truthy tv then
            Inl (Error (js ''No access token available. Please configure DA_CLIENT_ID, DA_CLIENT_SECRET, DA_SERVICE_TOKEN or IMS_TOKEN secrets.''))
          else Inr (to_string tv))"

text \<open>The debugging lines 151 to 157.\<close>

definition log_sources :: "source list \<Rightarrow> state \<Rightarrow> state" where
  "log_sources sources st =
     st\<lparr>logs := logs st @ [Info_found (length sources), Info_sources_found]
                 @ map (\<lambda>(i, s). Info_source i s) (enumerate 1 sources)\<rparr>"

text \<open>The body of the \<open>try\<close> block of \<open>run\<close>.\<close>

definition run_try :: "env \<Rightarrow> state \<Rightarrow> (error + unit) \<times> state" where
  "run_try e st =
     (case get_inputs e of
        Inl err \<Rightarrow> (Inl err, st)
      | Inr (org, repo, p) \<Rightarrow>
          (let st1 = log_entry (Info_starting org repo p) st
           in case get_token e of
                Inl err \<Rightarrow> (Inl err, st1)
              | Inr token \<Rightarrow>
                  (case listSources e token org repo p st1 of
                     (Inl err, st2) \<Rightarrow> (Inl err, st2)
                   | (Inr sources, st2) \<Rightarrow>
                       (let st3 = log_sources sources st2
                        in if length sources = 0 then
                             (Inr (),
                              setOutput (Backup_folder_name (js ''no-backup-needed''))
                                (log_entry Info_no_sources st3))
                           else
                             (case createBackupFolder e token org repo p st3 of
                                (Inl err, st4) \<Rightarrow> (Inl err, st4)
                              | (Inr b, st4) \<Rightarrow>
                                  (case move_loop e token org repo b sources 0 st4 of
                                     (movedCount, st5) \<Rightarrow>
                                       (Inr (),
                                        setOutput (Backup_folder_name (backup_name b))
                                          (log_entry (Info_completed movedCount (backup_name b))
                                             st5))))))))"

text \<open>\<open>run\<close>: the \<open>try\<close> block and its \<open>catch\<close>, from the initial state.\<close>

definition run :: "env \<Rightarrow> state" where
  "run e =
     (case run_try e init of
        (Inr u, st) \<Rightarrow> st
      | (Inl err, st) \<Rightarrow>
          setFailed err (setOutput (Error_message err) (log_entry (Error_backup_failed err) st)))"

section \<open>Vocabulary of the properties\<close>

text \<open>
  The three kinds of listed items: reserved by name; malformed, which is not reserved and
  lacks \<open>path\<close> or \<open>name\<close>; and eligible for the move, which is the rest.
\<close>

definition reserved :: "source \<Rightarrow> bool" where
  "reserved s = (name s \<in> set reservedItems)"

definition malformed :: "source \<Rightarrow> bool" where
  "malformed s = (\<not> reserved s \<and> (\<not> truthy (path s) \<or> \<not> truthy (name s)))"

definition eligible :: "source \<Rightarrow> bool" where
  "eligible s = (\<not> reserved s \<and> truthy (path s) \<and> truthy (name s))"

definition move_call :: "jsstring \<Rightarrow> jsstring \<Rightarrow> backup \<Rightarrow> source \<Rightarrow> call" where
  "move_call org repo b s = MoveSource (path s) (destPath org repo b s)"

fun is_moved :: "log_entry \<Rightarrow> bool" where
  "is_moved (Info_moved p d) = True"
| "is_moved _ = False"

fun is_move_failed :: "log_entry \<Rightarrow> bool" where
  "is_move_failed (Warning_move_failed p b err) = True"
| "is_move_failed _ = False"

fun is_reserved_skip :: "log_entry \<Rightarrow> bool" where
  "is_reserved_skip (Info_skipping_reserved v) = True"
| "is_reserved_skip _ = False"

text \<open>Two states that differ at most in the lines logged for reserved items.\<close>

definition same_but_skips :: "state \<Rightarrow> state \<Rightarrow> bool" where
  "same_but_skips st st' =
     (requests st = requests st' \<and> calls st = calls st' \<and> outputs st = outputs st'
      \<and> failed st = failed st'
      \<and> filter (\<lambda>l. \<not> is_reserved_skip l) (logs st) = filter (\<lambda>l. \<not> is_reserved_skip l) (logs st'))"

text \<open>The request a move of an item sends, when its path can be encoded.\<close>

definition move_request :: "jsstring \<Rightarrow> jsstring \<Rightarrow> jsstring \<Rightarrow> backup \<Rightarrow> source \<Rightarrow> request" where
  "move_request token org repo b s =
     request_of token
       (js ''/move''
        @ (case encodedSourcePath (to_string (path s)) of None \<Rightarrow> [] | Some encoded \<Rightarrow> encoded))
       \<lparr>opt_method = Some (js ''POST''),
          opt_body = Some (formData_append [] (js ''destination'') (destPath org repo b s))\<rparr>"

definition encodable :: "source \<Rightarrow> bool" where
  "encodable s = (encodedSourcePath (to_string (path s)) \<noteq> None)"

text \<open>
  The number of moves that succeed when the eligible items of a listing are moved one after
  the other from a state: the calls of \<open>moveSource\<close> that return normally.
\<close>

fun moves_succeeded ::
  "env \<Rightarrow> jsstring \<Rightarrow> jsstring \<Rightarrow> jsstring \<Rightarrow> backup \<Rightarrow> source list \<Rightarrow> state \<Rightarrow> nat" where
  "moves_succeeded e token org repo b [] st = 0"
| "moves_succeeded e token org repo b (s # rest) st =
     (if eligible s then
        (case moveSource e token (path s) (destPath org repo b s) st of
           (Inl err, st1) \<Rightarrow> moves_succeeded e token org repo b rest st1
         | (Inr u, st1) \<Rightarrow> 1 + moves_succeeded e token org repo b rest st1)
      else moves_succeeded e token org repo b rest st)"

text \<open>
  An answer that \<open>daFetch\<close> returns from without throwing, and the number of such answers
  the server gives to a sequence of requests sent after a history.
\<close>

definition accepted :: "fetch_result \<Rightarrow> bool" where
  "accepted answer =
     (case answer of
        Network_error m \<Rightarrow> False
      | Response res \<Rightarrow>
          ok res
          \<and> (status res = 204
             \<or> (case content_type res of
                   None \<Rightarrow> True
                 | Some ct \<Rightarrow>
                     \<not> includes_str ct (js ''application/json'') \<or> body_json res \<noteq> None)))"

fun count_accepted :: "env \<Rightarrow> request list \<Rightarrow> request list \<Rightarrow> nat" where
  "count_accepted e history [] = 0"
| "count_accepted e history (req # reqs) =
     (if accepted (fetch e history req) then 1 else 0) + count_accepted e (history @ [req]) reqs"

text \<open>An item, listed alone, is skipped with the warning and not moved.\<close>

definition skipped_with_warning ::
  "env \<Rightarrow> jsstring \<Rightarrow> jsstring \<Rightarrow> jsstring \<Rightarrow> backup \<Rightarrow> source \<Rightarrow> bool" where
  "skipped_with_warning e token org repo b s =
     (case move_loop e token org repo b [s] 0 init of
        (movedCount, st) \<Rightarrow> logs st = [Warning_missing_properties s] \<and> calls st = [])"

definition blank :: "jsstring option \<Rightarrow> bool" where
  "blank v = (case v of None \<Rightarrow> True | Some raw \<Rightarrow> trim raw = [])"

text \<open>A date that \<open>toISOString\<close> prints in its 24-character form.\<close>

definition calendar_date :: "date \<Rightarrow> bool" where
  "calendar_date d =
     (0 \<le> year d \<and> year d \<le> 9999 \<and> 1 \<le> month d \<and> month d \<le> 12 \<and> 1 \<le> day d \<and> day d \<le> 31
      \<and> hours d \<le> 23 \<and> minutes d \<le> 59 \<and> seconds d \<le> 59 \<and> milliseconds d \<le> 999)"

section \<open>Example runs\<close>

definition example_date :: date where
  "example_date =
     \<lparr>year = 2025, month = 1, day = 2, hours = 3, minutes = 4, seconds = 5, milliseconds = 67\<rparr>"

definition json_response :: "json \<Rightarrow> fetch_result" where
  "json_response j =
     Response \<lparr>status = 200, content_type = Some (js ''application/json''), body_text = [],
               body_json = Some j\<rparr>"

definition status_response :: "nat \<Rightarrow> fetch_result" where
  "status_response n =
     Response \<lparr>status = n, content_type = None, body_text = [], body_json = None\<rparr>"

definition item_tools :: source where
  "item_tools = \<lparr>name = JString (js ''tools''), path = JUndefined, ext = JUndefined\<rparr>"

definition item_index :: source where
  "item_index =
     \<lparr>name = JString (js ''index''), path = JString (js ''/o/r/index''),
      ext = JString (js ''html'')\<rparr>"

definition item_nav :: source where
  "item_nav =
     \<lparr>name = JString (js ''nav''), path = JString (js ''/o/r/nav''), ext = JUndefined\<rparr>"

definition item_no_path :: source where
  "item_no_path = \<lparr>name = JString (js ''index''), path = JUndefined, ext = JUndefined\<rparr>"

definition example_backup :: backup where
  "example_backup =
     \<lparr>backup_name = js ''backup-2025-01-02T03-04-05'',
      backup_path = js ''backup-2025-01-02T03-04-05''\<rparr>"

text \<open>
  An environment with org \<open>o\<close>, repo \<open>r\<close>, no path and token \<open>t\<close>, whose server gives the
  k-th request of the run the k-th answer.
\<close>

definition example_env :: "(nat \<Rightarrow> fetch_result) \<Rightarrow> env" where
  "example_env answers =
     \<lparr>input_org = Some (js '' o ''), input_repo = Some (js ''r''), input_path = None,
      access_token = Token_value (JString (js ''t'')), now = example_date,
      fetch = (\<lambda>history req. answers (length history))\<rparr>"

text \<open>The listing of the specification's example; every request succeeds.\<close>

definition answers_ok :: "nat \<Rightarrow> fetch_result" where
  "answers_ok k =
     (if k = 0 then json_response (Json_array [item_tools, item_index]) else status_response 204)"

text \<open>One movable item is listed and the folder creation is refused.\<close>

definition answers_create_fails :: "nat \<Rightarrow> fetch_result" where
  "answers_create_fails k =
     (if k = 0 then json_response (Json_array [item_index]) else status_response 500)"

text \<open>The first request is refused, every later one succeeds.\<close>

definition answers_fail_then_ok :: "nat \<Rightarrow> fetch_result" where
  "answers_fail_then_ok k = (if k = 0 then status_response 500 else status_response 204)"

text \<open>
  Two movable items are listed and the folder is created; the first move is refused,
  the second succeeds.
\<close>

definition answers_first_move_fails :: "nat \<Rightarrow> fetch_result" where
  "answers_first_move_fails k =
     (if k = 0 then json_response (Json_array [item_index, item_nav])
      else if k = 2 then status_response 500 else status_response 204)"

text \<open>The listing is empty, and the listing is answered with 204.\<close>

definition answers_empty :: "nat \<Rightarrow> fetch_result" where
  "answers_empty k = json_response (Json_array [])"

definition answers_204 :: "nat \<Rightarrow> fetch_result" where
  "answers_204 k = status_response 204"

section \<open>Properties of the URL encoding\<close>

lemma lt16_cases:
  "(n::nat) < 16 \<Longrightarrow> n \<in> {0, 1, 2, 3, 4, 5, 6, 7, 8, 9, 10, 11, 12, 13, 14, 15}"
  by simp arith

lemma hexdigit_not_pct: "n < 16 \<Longrightarrow> hexdigit n \<noteq> 0x25"
  by (drule lt16_cases) (auto simp: hexdigit_def)

lemma hexdigit_is_2: "n < 16 \<Longrightarrow> hexdigit n = 0x32 \<Longrightarrow> n = 2"
  by (drule lt16_cases) (auto simp: hexdigit_def)

lemma hexdigit_is_F: "n < 16 \<Longrightarrow> hexdigit n = 0x46 \<Longrightarrow> n = 15"
  by (drule lt16_cases) (auto simp: hexdigit_def)

lemma js_pct2F: "js ''%2F'' = [0x25, 0x32, 0x46]"
  by (simp add: js_def)

lemma js_slash: "js ''/'' = [0x2F]"
  by (simp add: js_def)

lemma replace_other: "c \<noteq> 0x25 \<Longrightarrow> replace_pct2F (c # cs) = c # replace_pct2F cs"
  by (simp add: js_pct2F)

lemma replace_pct_slash: "replace_pct2F (pct 0x2F @ rest) = 0x2F # replace_pct2F rest"
  by (simp add: pct_def hexdigit_def js_pct2F js_slash)

lemma replace_pct_other:
  assumes "octet < 256" "octet \<noteq> 0x2F"
  shows "replace_pct2F (pct octet @ rest) = pct octet @ replace_pct2F rest"
proof -
  have hi: "octet div 16 < 16" and lo: "octet mod 16 < 16"
    using assms by auto
  have no: "\<not> (hexdigit (octet div 16) = 0x32 \<and> hexdigit (octet mod 16) = 0x46)"
  proof
    assume "hexdigit (octet div 16) = 0x32 \<and> hexdigit (octet mod 16) = 0x46"
    then have "octet div 16 = 2" "octet mod 16 = 15"
      using hi lo hexdigit_is_2 hexdigit_is_F by blast+
    then have "octet = 0x2F"
      using div_mult_mod_eq [of octet 16] by simp
    with assms show False by simp
  qed
  have "replace_pct2F (0x25 # hexdigit (octet div 16) # hexdigit (octet mod 16) # rest)
        = 0x25 # replace_pct2F (hexdigit (octet div 16) # hexdigit (octet mod 16) # rest)"
    using no by (auto simp: js_pct2F)
  also have "\<dots> = 0x25 # hexdigit (octet div 16) # hexdigit (octet mod 16) # replace_pct2F rest"
    by (simp only: replace_other [OF hexdigit_not_pct [OF hi]]
          replace_other [OF hexdigit_not_pct [OF lo]])
  finally show ?thesis by (simp add: pct_def)
qed

lemma replace_escape_octets:
  "\<forall>b \<in> set bs. b < 256 \<and> b \<noteq> 0x2F \<Longrightarrow>
   replace_pct2F (concat (map pct bs) @ rest) = concat (map pct bs) @ replace_pct2F rest"
  by (induction bs) (simp_all add: replace_pct_other)

lemma utf8_octets:
  assumes "cp < 0x110000" "cp \<noteq> 0x2F"
  shows "\<forall>b \<in> set (utf8 cp). b < 256 \<and> b \<noteq> 0x2F"
  using assms unfolding utf8_def by auto

lemma replace_escape:
  "cp < 0x110000 \<Longrightarrow> cp \<noteq> 0x2F \<Longrightarrow>
   replace_pct2F (escape cp @ rest) = escape cp @ replace_pct2F rest"
  unfolding escape_def by (rule replace_escape_octets) (rule utf8_octets)

lemma escape_slash: "escape 0x2F = pct 0x2F"
  by (simp add: escape_def utf8_def)

lemma pair_code_point_bound:
  "is_leading_surrogate c \<Longrightarrow> is_trailing_surrogate d \<Longrightarrow>
   surrogate_pair_to_code_point c d < 0x110000 \<and> surrogate_pair_to_code_point c d \<noteq> 0x2F"
  unfolding is_leading_surrogate_def is_trailing_surrogate_def surrogate_pair_to_code_point_def
  by (auto simp: word_le_nat_alt)

lemma unit_code_point_bound: "unat (c :: 16 word) < 0x110000"
  using unsigned_less [of c, where 'a = nat] by simp

lemma unescaped_not_pct: "is_unescaped c \<Longrightarrow> c \<noteq> 0x25"
  by (auto simp: is_unescaped_def js_def)

lemma slash_not_unescaped: "\<not> is_unescaped 0x2F"
  by (simp add: is_unescaped_def js_def)

lemma slash_not_surrogate: "\<not> is_trailing_surrogate 0x2F" "\<not> is_leading_surrogate 0x2F"
  by (simp_all add: is_trailing_surrogate_def is_leading_surrogate_def)

lemma append_single: "(@) [c] = (#) c"
  by auto

lemma split_nonempty: "split sep s \<noteq> []"
  by (induction s) (auto split: list.splits)

lemma split_prefix:
  "sep \<notin> set p \<Longrightarrow> split sep (p @ cs) = (p @ hd (split sep cs)) # tl (split sep cs)"
proof (induction p)
  case Nil
  then show ?case using split_nonempty [of sep cs] by simp
next
  case (Cons a p)
  then show ?case by auto
qed

lemma those_length: "those xs = Some ys \<Longrightarrow> length ys = length xs"
  by (induction xs arbitrary: ys) (auto split: option.splits)

lemma join_prepend: "join sep ((t @ x) # ys) = t @ join sep (x # ys)"
  by (cases ys) simp_all

lemma each_segment_prefix:
  assumes "0x2F \<notin> set p"
    and "\<And>seg. encodeURIComponent (p @ seg) = map_option ((@) t) (encodeURIComponent seg)"
  shows "encode_each_segment (p @ cs) = map_option ((@) t) (encode_each_segment cs)"
proof -
  obtain seg segs where sp: "split 0x2F cs = seg # segs"
    using split_nonempty [of "0x2F" cs] by (cases "split 0x2F cs") auto
  show ?thesis
    unfolding encode_each_segment_def split_prefix [OF assms(1)] sp
    by (cases "encodeURIComponent seg"; cases "those (map encodeURIComponent segs)")
       (simp_all add: assms(2) join_prepend)
qed

lemma each_segment_fail:
  assumes "0x2F \<notin> set p" and "\<And>seg. encodeURIComponent (p @ seg) = None"
  shows "encode_each_segment (p @ cs) = None"
  unfolding encode_each_segment_def split_prefix [OF assms(1)]
  by (simp add: assms(2))

lemma each_segment_slash:
  "encode_each_segment (0x2F # cs) = map_option ((#) 0x2F) (encode_each_segment cs)"
proof (cases "those (map encodeURIComponent (split 0x2F cs))")
  case None
  then show ?thesis by (simp add: encode_each_segment_def)
next
  case (Some ys)
  then have "length ys = length (split 0x2F cs)"
    using those_length by fastforce
  then obtain y ys' where "ys = y # ys'"
    using split_nonempty [of "0x2F" cs] by (cases ys) auto
  with Some show ?thesis by (simp add: encode_each_segment_def js_slash)
qed

lemma encodedSourcePath_Nil: "encodedSourcePath [] = encode_each_segment []"
  by (simp add: encodedSourcePath_def encode_each_segment_def)

lemma map_option_replace_other:
  "c \<noteq> 0x25 \<Longrightarrow>
   map_option replace_pct2F (map_option ((#) c) r) = map_option ((#) c) (map_option replace_pct2F r)"
  by (cases r) (simp_all add: replace_other del: replace_pct2F.simps)

lemma map_option_replace_escape:
  "cp < 0x110000 \<Longrightarrow> cp \<noteq> 0x2F \<Longrightarrow>
   map_option replace_pct2F (map_option ((@) (escape cp)) r)
   = map_option ((@) (escape cp)) (map_option replace_pct2F r)"
  by (cases r) (simp_all add: replace_escape del: replace_pct2F.simps)

lemma map_option_replace_slash:
  "map_option replace_pct2F (map_option ((@) (escape 0x2F)) r)
   = map_option ((#) 0x2F) (map_option replace_pct2F r)"
  by (cases r) (simp_all add: escape_slash replace_pct_slash del: replace_pct2F.simps)

text \<open>
  Claim C9. For every source path, encoding the whole string and then restoring the escaped
  \<open>/\<close> separators, as \<open>moveSource\<close> does, gives the same result as encoding each
  \<open>/\<close>-separated segment on its own and joining the results with \<open>/\<close>; this includes the
  paths on which the encoding raises URIError, where both do.
\<close>

theorem encode_whole_eq_each_segment: "encodedSourcePath s = encode_each_segment s"
proof (induction s rule: encodeURIComponent.induct)
  case 1
  show ?case by (rule encodedSourcePath_Nil)
next
  case (2 c cs)
  show ?case
  proof (cases "is_unescaped c")
    case True
    then have ne: "c \<noteq> 0x2F" "c \<noteq> 0x25"
      using slash_not_unescaped unescaped_not_pct by auto
    have "encode_each_segment ([c] @ cs) = map_option ((@) [c]) (encode_each_segment cs)"
      by (rule each_segment_prefix) (use True ne in \<open>simp_all add: append_single\<close>)
    moreover have "encodedSourcePath cs = encode_each_segment cs"
      using 2(1) True by simp
    ultimately show ?thesis
      using True ne by (simp add: encodedSourcePath_def map_option_replace_other append_single)
  next
    case unesc: False
    show ?thesis
    proof (cases "is_trailing_surrogate c")
      case True
      then have "c \<noteq> 0x2F" using slash_not_surrogate by auto
      then have "encode_each_segment ([c] @ cs) = None"
        by (intro each_segment_fail) (use unesc True in simp_all)
      then show ?thesis using unesc True by (simp add: encodedSourcePath_def)
    next
      case trail: False
      show ?thesis
      proof (cases "is_leading_surrogate c")
        case lead: True
        then have cne: "c \<noteq> 0x2F" using slash_not_surrogate by auto
        show ?thesis
        proof (cases cs)
          case Nil
          then show ?thesis
            using unesc trail lead cne by (simp add: encodedSourcePath_def encode_each_segment_def)
        next
          case (Cons d ds)
          show ?thesis
          proof (cases "is_trailing_surrogate d")
            case dtrail: True
            then have dne: "d \<noteq> 0x2F" using slash_not_surrogate by auto
            let ?cp = "surrogate_pair_to_code_point c d"
            have b: "?cp < 0x110000" "?cp \<noteq> 0x2F"
              using pair_code_point_bound [OF lead dtrail] by auto
            have "encode_each_segment ([c, d] @ ds)
                  = map_option ((@) (escape ?cp)) (encode_each_segment ds)"
              by (rule each_segment_prefix) (use unesc trail lead dtrail cne dne in simp_all)
            moreover have "encodedSourcePath ds = encode_each_segment ds"
              using 2(2) [OF unesc trail lead Cons dtrail] .
            ultimately show ?thesis
              using unesc trail lead dtrail Cons b
              by (simp add: encodedSourcePath_def map_option_replace_escape)
          next
            case dtrail: False
            have "encode_each_segment (c # d # ds) = None"
            proof (cases "d = 0x2F")
              case True
              have "split 0x2F ([c] @ 0x2F # ds) = ([c] @ hd (split 0x2F (0x2F # ds))) # tl (split 0x2F (0x2F # ds))"
                by (rule split_prefix) (use cne in simp)
              then show ?thesis
                using True unesc trail lead by (simp add: encode_each_segment_def)
            next
              case False
              have "encode_each_segment ([c, d] @ ds) = None"
                by (intro each_segment_fail) (use unesc trail lead dtrail cne False in simp_all)
              then show ?thesis by simp
            qed
            then show ?thesis
              using unesc trail lead dtrail Cons by (simp add: encodedSourcePath_def)
          qed
        qed
      next
        case lead: False
        have ih: "encodedSourcePath cs = encode_each_segment cs"
          using 2(3) [OF unesc trail lead] .
        show ?thesis
        proof (cases "c = 0x2F")
          case True
          then show ?thesis
            using ih unesc trail lead
            by (simp add: each_segment_slash)
               (simp add: encodedSourcePath_def map_option_replace_slash)
        next
          case False
          have une: "unat c \<noteq> 0x2F"
          proof
            assume "unat c = 0x2F"
            then have "(word_of_nat (unat c) :: 16 word) = word_of_nat 0x2F" by simp
            then show False using False by simp
          qed
          have "encode_each_segment ([c] @ cs)
                = map_option ((@) (escape (unat c))) (encode_each_segment cs)"
            by (rule each_segment_prefix) (use unesc trail lead False in simp_all)
          then show ?thesis
            using ih unesc trail lead une unit_code_point_bound [of c]
            by (simp add: encodedSourcePath_def map_option_replace_escape)
        qed
      qed
    qed
  qed
qed

section \<open>Effects of the API client and of the loop\<close>

lemma daFetch_shape:
  "\<exists>r ws.
     (\<forall>st'. requests st' = requests st \<longrightarrow>
        daFetch e token endpoint opts st'
        = (r, st'\<lparr>requests := requests st' @ [request_of token endpoint opts],
                  logs := logs st' @ ws\<rparr>))
     \<and> (ws = [] \<or> (\<exists>n t. ws = [Warning_api_error n t]))"
proof -
  define out where
    "out = (case fetch e (requests st) (request_of token endpoint opts) of
              Network_error m \<Rightarrow> (Inl (Fetch_failed m), [])
            | Response res \<Rightarrow>
                if \<not> ok res then
                  (Inl (Api_error (status res) (body_text res)),
                   [Warning_api_error (status res) (body_text res)])
                else if status res = 204 then (Inr Payload_null, [])
                else
                  (case content_type res of
                     None \<Rightarrow> (Inr (Payload_text (body_text res)), [])
                   | Some ct \<Rightarrow>
                       if includes_str ct (js ''application/json'') then
                         (case body_json res of
                            None \<Rightarrow> (Inl SyntaxError, [])
                          | Some j \<Rightarrow> (Inr (Payload_json j), []))
                       else (Inr (Payload_text (body_text res)), [])))"
  have 1: "daFetch e token endpoint opts st'
           = (fst out, st'\<lparr>requests := requests st' @ [request_of token endpoint opts],
                           logs := logs st' @ snd out\<rparr>)"
    if "requests st' = requests st" for st'
    unfolding daFetch_def Let_def out_def that
    by (simp add: log_entry_def split: fetch_result.split option.split)
  have 2: "snd out = [] \<or> (\<exists>n t. snd out = [Warning_api_error n t])"
    unfolding out_def by (simp split: fetch_result.split option.split)
  show ?thesis using 1 2 by blast
qed

lemma daFetch_effects:
  assumes "daFetch e token endpoint opts st = (r, st1)"
  shows "requests st1 = requests st @ [request_of token endpoint opts]"
    and "calls st1 = calls st"
    and "outputs st1 = outputs st"
    and "failed st1 = failed st"
    and "logs st1 = logs st \<or> (\<exists>n t. logs st1 = logs st @ [Warning_api_error n t])"
proof -
  obtain r0 ws where
    sh: "\<And>st'. requests st' = requests st \<Longrightarrow>
       daFetch e token endpoint opts st'
       = (r0, st'\<lparr>requests := requests st' @ [request_of token endpoint opts],
                 logs := logs st' @ ws\<rparr>)"
    and ws: "ws = [] \<or> (\<exists>n t. ws = [Warning_api_error n t])"
    using daFetch_shape [where st = st and e = e and token = token and endpoint = endpoint
        and opts = opts] by blast
  have a: "st1 = st\<lparr>requests := requests st @ [request_of token endpoint opts],
                 logs := logs st @ ws\<rparr>"
    using sh [of st] assms by simp
  show "requests st1 = requests st @ [request_of token endpoint opts]"
    and "calls st1 = calls st" and "outputs st1 = outputs st" and "failed st1 = failed st"
    by (simp_all add: a)
  show "logs st1 = logs st \<or> (\<exists>n t. logs st1 = logs st @ [Warning_api_error n t])"
    using ws by (auto simp: a)
qed

lemma daFetch_filter_logs:
  assumes "daFetch e token endpoint opts st = (r, st1)" and "\<And>n t. \<not> P (Warning_api_error n t)"
  shows "filter P (logs st1) = filter P (logs st)"
  using daFetch_effects(5) [OF assms(1)] assms(2) by auto

lemma moveSource_effects:
  assumes "moveSource e token p d st = (r, st1)"
  shows "calls st1 = calls st @ [MoveSource p d]"
    and "outputs st1 = outputs st"
    and "failed st1 = failed st"
    and "\<And>P. (\<And>n t. \<not> P (Warning_api_error n t)) \<Longrightarrow> filter P (logs st1) = filter P (logs st)"
proof -
  let ?st0 = "called (MoveSource p d) st"
  show "calls st1 = calls st @ [MoveSource p d]"
    using assms
    by (auto simp: moveSource_def Let_def called_def split: option.splits prod.splits sum.splits
        dest: daFetch_effects(2))
  show "outputs st1 = outputs st"
    using assms
    by (auto simp: moveSource_def Let_def called_def split: option.splits prod.splits sum.splits
        dest: daFetch_effects(3))
  show "failed st1 = failed st"
    using assms
    by (auto simp: moveSource_def Let_def called_def split: option.splits prod.splits sum.splits
        dest: daFetch_effects(4))
  show "filter P (logs st1) = filter P (logs st)" if "\<And>n t. \<not> P (Warning_api_error n t)" for P
    using assms that
    by (auto simp: moveSource_def Let_def called_def split: option.splits prod.splits sum.splits
        dest!: daFetch_filter_logs [where P = P])
qed

lemma move_loop_reserved:
  "reserved s \<Longrightarrow>
   move_loop e token org repo b (s # rest) n st
   = move_loop e token org repo b rest n (log_entry (Info_skipping_reserved (name s)) st)"
  by (simp add: reserved_def)

lemma move_loop_malformed:
  "malformed s \<Longrightarrow>
   move_loop e token org repo b (s # rest) n st
   = move_loop e token org repo b rest n (log_entry (Warning_missing_properties s) st)"
  by (auto simp: reserved_def malformed_def)

lemma move_loop_moved:
  "eligible s \<Longrightarrow> moveSource e token (path s) (destPath org repo b s) st = (Inr u, st1) \<Longrightarrow>
   move_loop e token org repo b (s # rest) n st
   = move_loop e token org repo b rest (n + 1)
       (log_entry (Info_moved (path s) (destPath org repo b s)) st1)"
  by (simp add: reserved_def eligible_def)

lemma move_loop_failed:
  "eligible s \<Longrightarrow> moveSource e token (path s) (destPath org repo b s) st = (Inl err, st1) \<Longrightarrow>
   move_loop e token org repo b (s # rest) n st
   = move_loop e token org repo b rest n
       (log_entry (Warning_move_failed (path s) (backup_name b) err) st1)"
  by (simp add: reserved_def eligible_def)

declare move_loop.simps(2) [simp del]

lemma source_cases:
  obtains (reserved) "reserved s" | (malformed) "malformed s" | (eligible) "eligible s"
  by (auto simp: malformed_def eligible_def)

lemma source_kinds:
  "reserved s \<Longrightarrow> \<not> malformed s \<and> \<not> eligible s"
  "malformed s \<Longrightarrow> \<not> reserved s \<and> \<not> eligible s"
  "eligible s \<Longrightarrow> \<not> reserved s \<and> \<not> malformed s"
  by (auto simp: malformed_def eligible_def)

lemma move_loop_append:
  "move_loop e token org repo b (xs @ ys) n st
   = (case move_loop e token org repo b xs n st of
        (k, st1) \<Rightarrow> move_loop e token org repo b ys k st1)"
proof (induction xs arbitrary: n st)
  case Nil
  show ?case by simp
next
  case (Cons s xs)
  show ?case
  proof (cases s rule: source_cases)
    case reserved
    then show ?thesis by (simp only: append_Cons move_loop_reserved Cons.IH)
  next
    case malformed
    then show ?thesis by (simp only: append_Cons move_loop_malformed Cons.IH)
  next
    case eligible
    obtain r st1 where m: "moveSource e token (path s) (destPath org repo b s) st = (r, st1)"
      by (cases "moveSource e token (path s) (destPath org repo b s) st")
    show ?thesis
    proof (cases r)
      case (Inl err)
      with m eligible show ?thesis by (simp only: append_Cons move_loop_failed Cons.IH)
    next
      case (Inr u)
      with m eligible show ?thesis by (simp only: append_Cons move_loop_moved Cons.IH)
    qed
  qed
qed

lemma move_loop_calls:
  "calls (snd (move_loop e token org repo b sources n st))
   = calls st @ map (move_call org repo b) (filter eligible sources)"
proof (induction sources arbitrary: n st)
  case Nil
  show ?case by simp
next
  case (Cons s sources)
  show ?case
  proof (cases s rule: source_cases)
    case reserved
    then show ?thesis
      using source_kinds(1) [OF reserved]
      by (simp only: move_loop_reserved Cons.IH) (simp add: log_entry_def)
  next
    case malformed
    then show ?thesis
      using source_kinds(2) [OF malformed]
      by (simp only: move_loop_malformed Cons.IH) (simp add: log_entry_def)
  next
    case eligible
    obtain r st1 where m: "moveSource e token (path s) (destPath org repo b s) st = (r, st1)"
      by (cases "moveSource e token (path s) (destPath org repo b s) st")
    have c: "calls st1 = calls st @ [move_call org repo b s]"
      using moveSource_effects(1) [OF m] by (simp add: move_call_def)
    show ?thesis
    proof (cases r)
      case (Inl err)
      with m eligible c show ?thesis
        by (simp only: move_loop_failed Cons.IH) (simp add: log_entry_def)
    next
      case (Inr u)
      with m eligible c show ?thesis
        by (simp only: move_loop_moved Cons.IH) (simp add: log_entry_def)
    qed
  qed
qed


lemma moveSource_requests:
  assumes "moveSource e token (path s) (destPath org repo b s) st = (r, st1)"
  shows "requests st1 = requests st @ (if encodable s then [move_request token org repo b s] else [])"
  using assms
  by (auto simp: moveSource_def Let_def called_def encodable_def move_request_def
      split: option.splits prod.splits sum.splits dest: daFetch_effects(1))

lemma move_loop_count:
  "fst (move_loop e token org repo b sources n st) + length (filter is_moved (logs st))
   = n + length (filter is_moved (logs (snd (move_loop e token org repo b sources n st))))"
proof (induction sources arbitrary: n st)
  case Nil
  show ?case by simp
next
  case (Cons s sources)
  show ?case
  proof (cases s rule: source_cases)
    case reserved
    show ?thesis
      using Cons.IH [of n "log_entry (Info_skipping_reserved (name s)) st"]
      by (simp only: move_loop_reserved [OF reserved]) (simp add: log_entry_def)
  next
    case malformed
    show ?thesis
      using Cons.IH [of n "log_entry (Warning_missing_properties s) st"]
      by (simp only: move_loop_malformed [OF malformed]) (simp add: log_entry_def)
  next
    case eligible
    obtain r st1 where m: "moveSource e token (path s) (destPath org repo b s) st = (r, st1)"
      by (cases "moveSource e token (path s) (destPath org repo b s) st")
    have l: "filter is_moved (logs st1) = filter is_moved (logs st)"
      by (rule moveSource_effects(4) [OF m]) simp
    show ?thesis
    proof (cases r)
      case (Inl err)
      show ?thesis
        using Cons.IH [of n "log_entry (Warning_move_failed (path s) (backup_name b) err) st1"] l
        by (simp only: move_loop_failed [OF eligible m [unfolded Inl]]) (simp add: log_entry_def)
    next
      case (Inr u)
      show ?thesis
        using Cons.IH [of "n + 1" "log_entry (Info_moved (path s) (destPath org repo b s)) st1"] l
        by (simp only: move_loop_moved [OF eligible m [unfolded Inr]]) (simp add: log_entry_def)
    qed
  qed
qed

lemma move_loop_requests:
  "requests (snd (move_loop e token org repo b sources n st))
   = requests st
     @ map (move_request token org repo b) (filter (\<lambda>s. eligible s \<and> encodable s) sources)"
proof (induction sources arbitrary: n st)
  case Nil
  show ?case by simp
next
  case (Cons s sources)
  show ?case
  proof (cases s rule: source_cases)
    case reserved
    then show ?thesis
      using source_kinds(1) [OF reserved]
      by (simp only: move_loop_reserved Cons.IH) (simp add: log_entry_def)
  next
    case malformed
    then show ?thesis
      using source_kinds(2) [OF malformed]
      by (simp only: move_loop_malformed Cons.IH) (simp add: log_entry_def)
  next
    case eligible
    obtain r st1 where m: "moveSource e token (path s) (destPath org repo b s) st = (r, st1)"
      by (cases "moveSource e token (path s) (destPath org repo b s) st")
    note c = moveSource_requests [OF m]
    show ?thesis
    proof (cases r)
      case (Inl err)
      with m eligible c show ?thesis
        by (simp only: move_loop_failed Cons.IH) (simp add: log_entry_def)
    next
      case (Inr u)
      with m eligible c show ?thesis
        by (simp only: move_loop_moved Cons.IH) (simp add: log_entry_def)
    qed
  qed
qed

lemma daFetch_same_but_skips:
  assumes "same_but_skips st st'" and "daFetch e token endpoint opts st = (r, st1)"
  shows "\<exists>st1'. daFetch e token endpoint opts st' = (r, st1') \<and> same_but_skips st1 st1'"
proof -
  obtain r0 ws where
    sh: "\<And>st'. requests st' = requests st \<Longrightarrow>
       daFetch e token endpoint opts st'
       = (r0, st'\<lparr>requests := requests st' @ [request_of token endpoint opts],
                 logs := logs st' @ ws\<rparr>)"
    and ws: "ws = [] \<or> (\<exists>n t. ws = [Warning_api_error n t])"
    using daFetch_shape [where st = st and e = e and token = token and endpoint = endpoint
        and opts = opts] by blast
  have a: "daFetch e token endpoint opts st
       = (r0, st\<lparr>requests := requests st @ [request_of token endpoint opts],
                 logs := logs st @ ws\<rparr>)"
    by (rule sh) simp
  have b: "daFetch e token endpoint opts st'
       = (r0, st'\<lparr>requests := requests st' @ [request_of token endpoint opts],
                 logs := logs st' @ ws\<rparr>)"
    by (rule sh) (use assms(1) in \<open>simp add: same_but_skips_def\<close>)
  show ?thesis
    using assms a b ws by (auto simp: same_but_skips_def)
qed

lemma moveSource_same_but_skips:
  assumes "same_but_skips st st'" and "moveSource e token p d st = (r, st1)"
  shows "\<exists>st1'. moveSource e token p d st' = (r, st1') \<and> same_but_skips st1 st1'"
proof -
  have c: "same_but_skips (called (MoveSource p d) st) (called (MoveSource p d) st')"
    using assms(1) by (simp add: same_but_skips_def called_def)
  show ?thesis
  proof (cases "encodedSourcePath (to_string p)")
    case None
    with assms(2) c show ?thesis by (auto simp: moveSource_def Let_def)
  next
    case (Some encoded)
    let ?o = "\<lparr>opt_method = Some (js ''POST''),
               opt_body = Some (formData_append [] (js ''destination'') d)\<rparr>"
    obtain r0 st0 where
      f: "daFetch e token (js ''/move'' @ encoded) ?o (called (MoveSource p d) st) = (r0, st0)"
      by (cases "daFetch e token (js ''/move'' @ encoded) ?o (called (MoveSource p d) st)")
    obtain st0' where
      f': "daFetch e token (js ''/move'' @ encoded) ?o (called (MoveSource p d) st') = (r0, st0')"
      and s: "same_but_skips st0 st0'"
      using daFetch_same_but_skips [OF c f] by blast
    show ?thesis
      using assms(2) Some f f' s by (cases r0) (auto simp: moveSource_def Let_def)
  qed
qed

lemma same_but_skips_log:
  "same_but_skips st st' \<Longrightarrow> \<not> is_reserved_skip l \<Longrightarrow>
   same_but_skips (log_entry l st) (log_entry l st')"
  by (simp add: same_but_skips_def log_entry_def)

lemma same_but_skips_skip:
  "same_but_skips st st' \<Longrightarrow> same_but_skips (log_entry (Info_skipping_reserved v) st) st'"
  by (simp add: same_but_skips_def log_entry_def)

lemma move_loop_same_but_skips:
  assumes "same_but_skips st st'"
  shows "fst (move_loop e token org repo b sources n st)
         = fst (move_loop e token org repo b (filter (\<lambda>s. \<not> reserved s) sources) n st')
       \<and> same_but_skips (snd (move_loop e token org repo b sources n st))
           (snd (move_loop e token org repo b (filter (\<lambda>s. \<not> reserved s) sources) n st'))"
  using assms
proof (induction sources arbitrary: n st st')
  case Nil
  then show ?case by simp
next
  case (Cons s sources)
  show ?case
  proof (cases s rule: source_cases)
    case reserved
    have "same_but_skips (log_entry (Info_skipping_reserved (name s)) st) st'"
      using Cons.prems by (rule same_but_skips_skip)
    moreover have "filter (\<lambda>s. \<not> reserved s) (s # sources) = filter (\<lambda>s. \<not> reserved s) sources"
      using reserved by simp
    ultimately show ?thesis
      unfolding move_loop_reserved [OF reserved] by (simp only: Cons.IH)
  next
    case malformed
    then have nr: "\<not> reserved s" by (simp add: malformed_def)
    have "same_but_skips (log_entry (Warning_missing_properties s) st)
            (log_entry (Warning_missing_properties s) st')"
      using Cons.prems by (rule same_but_skips_log) simp
    moreover have "filter (\<lambda>s. \<not> reserved s) (s # sources) = s # filter (\<lambda>s. \<not> reserved s) sources"
      using nr by simp
    ultimately show ?thesis
      by (simp only: move_loop_malformed [OF malformed] Cons.IH)
  next
    case eligible
    then have nr: "\<not> reserved s" by (simp add: eligible_def)
    obtain r st1 where m: "moveSource e token (path s) (destPath org repo b s) st = (r, st1)"
      by (cases "moveSource e token (path s) (destPath org repo b s) st")
    obtain st1' where m': "moveSource e token (path s) (destPath org repo b s) st' = (r, st1')"
      and s1: "same_but_skips st1 st1'"
      using moveSource_same_but_skips [OF Cons.prems m] by blast
    show ?thesis
    proof (cases r)
      case (Inl err)
      have "same_but_skips (log_entry (Warning_move_failed (path s) (backup_name b) err) st1)
              (log_entry (Warning_move_failed (path s) (backup_name b) err) st1')"
        using s1 by (rule same_but_skips_log) simp
      moreover have "filter (\<lambda>s. \<not> reserved s) (s # sources) = s # filter (\<lambda>s. \<not> reserved s) sources"
        using nr by simp
      ultimately show ?thesis
        by (simp only: move_loop_failed [OF eligible m [unfolded Inl]]
            move_loop_failed [OF eligible m' [unfolded Inl]] Cons.IH)
    next
      case (Inr u)
      have "same_but_skips (log_entry (Info_moved (path s) (destPath org repo b s)) st1)
              (log_entry (Info_moved (path s) (destPath org repo b s)) st1')"
        using s1 by (rule same_but_skips_log) simp
      moreover have "filter (\<lambda>s. \<not> reserved s) (s # sources) = s # filter (\<lambda>s. \<not> reserved s) sources"
        using nr by simp
      ultimately show ?thesis
        by (simp only: move_loop_moved [OF eligible m [unfolded Inr]]
            move_loop_moved [OF eligible m' [unfolded Inr]] Cons.IH)
    qed
  qed
qed

lemma move_loop_skip_logs:
  "filter is_reserved_skip (logs (snd (move_loop e token org repo b sources n st)))
   = filter is_reserved_skip (logs st)
     @ map (\<lambda>s. Info_skipping_reserved (name s)) (filter reserved sources)"
proof (induction sources arbitrary: n st)
  case Nil
  show ?case by simp
next
  case (Cons s sources)
  show ?case
  proof (cases s rule: source_cases)
    case reserved
    then show ?thesis
      by (simp only: move_loop_reserved Cons.IH) (simp add: log_entry_def)
  next
    case malformed
    then show ?thesis
      using source_kinds(2) [OF malformed]
      by (simp only: move_loop_malformed Cons.IH) (simp add: log_entry_def)
  next
    case eligible
    obtain r st1 where m: "moveSource e token (path s) (destPath org repo b s) st = (r, st1)"
      by (cases "moveSource e token (path s) (destPath org repo b s) st")
    have l: "filter is_reserved_skip (logs st1) = filter is_reserved_skip (logs st)"
      by (rule moveSource_effects(4) [OF m]) simp
    show ?thesis
    proof (cases r)
      case (Inl err)
      with m eligible l source_kinds(3) [OF eligible] show ?thesis
        by (simp only: move_loop_failed Cons.IH) (simp add: log_entry_def)
    next
      case (Inr u)
      with m eligible l source_kinds(3) [OF eligible] show ?thesis
        by (simp only: move_loop_moved Cons.IH) (simp add: log_entry_def)
    qed
  qed
qed

section \<open>Malformed items\<close>

lemma move_loop_outcomes:
  "length (filter is_moved (logs (snd (move_loop e token org repo b sources n st))))
   + length (filter is_move_failed (logs (snd (move_loop e token org repo b sources n st))))
   = length (filter is_moved (logs st)) + length (filter is_move_failed (logs st))
     + length (filter eligible sources)"
proof (induction sources arbitrary: n st)
  case Nil
  show ?case by simp
next
  case (Cons s sources)
  show ?case
  proof (cases s rule: source_cases)
    case reserved
    then show ?thesis
      using source_kinds(1) [OF reserved]
      by (simp only: move_loop_reserved Cons.IH) (simp add: log_entry_def)
  next
    case malformed
    then show ?thesis
      using source_kinds(2) [OF malformed]
      by (simp only: move_loop_malformed Cons.IH) (simp add: log_entry_def)
  next
    case eligible
    obtain r st1 where m: "moveSource e token (path s) (destPath org repo b s) st = (r, st1)"
      by (cases "moveSource e token (path s) (destPath org repo b s) st")
    have l: "filter is_moved (logs st1) = filter is_moved (logs st)"
      "filter is_move_failed (logs st1) = filter is_move_failed (logs st)"
      by (rule moveSource_effects(4) [OF m], simp)+
    show ?thesis
    proof (cases r)
      case (Inl err)
      with m eligible l show ?thesis
        by (simp only: move_loop_failed Cons.IH) (simp add: log_entry_def)
    next
      case (Inr u)
      with m eligible l show ?thesis
        by (simp only: move_loop_moved Cons.IH) (simp add: log_entry_def)
    qed
  qed
qed

text \<open>
  Claim C1, as amended. In the move loop a non-reserved item is skipped with the warning,
  and no move is called for it, exactly when it lacks \<open>path\<close> or lacks \<open>name\<close> (the
  value is absent, \<open>null\<close>, \<open>false\<close> or the empty string). Wherever it stands in a
  listing, such an item adds the warning to the log and nothing else, and an item that has
  both is passed to the move operation.
\<close>

theorem missing_path_or_name_skipped:
  assumes "\<not> reserved s"
  shows "(skipped_with_warning e token org repo b s
          \<longleftrightarrow> (\<not> truthy (path s) \<or> \<not> truthy (name s)))
       \<and> ((\<not> truthy (path s) \<or> \<not> truthy (name s)) \<longrightarrow>
            move_loop e token org repo b (s # rest) n st
            = move_loop e token org repo b rest n (log_entry (Warning_missing_properties s) st))
       \<and> (truthy (path s) \<and> truthy (name s) \<longrightarrow>
            calls (snd (move_loop e token org repo b (s # rest) n st))
            = calls st @ move_call org repo b s # map (move_call org repo b) (filter eligible rest))"
proof (cases "malformed s")
  case True
  have "move_loop e token org repo b [s] 0 init
        = (0, log_entry (Warning_missing_properties s) init)"
    by (simp only: move_loop_malformed [OF True] move_loop.simps(1))
  then have "skipped_with_warning e token org repo b s"
    by (simp add: skipped_with_warning_def log_entry_def init_def)
  moreover have "\<not> truthy (path s) \<or> \<not> truthy (name s)"
    using True by (simp add: malformed_def)
  ultimately show ?thesis
    using move_loop_malformed [OF True, of e token org repo b rest n st] by blast
next
  case False
  with assms have el: "eligible s"
    by (simp add: malformed_def eligible_def)
  have "calls (snd (move_loop e token org repo b [s] 0 init)) \<noteq> []"
    by (simp only: move_loop_calls) (simp add: el)
  then have "\<not> skipped_with_warning e token org repo b s"
    by (auto simp: skipped_with_warning_def split: prod.splits)
  moreover have "truthy (path s) \<and> truthy (name s)"
    using el by (simp add: eligible_def)
  moreover have "calls (snd (move_loop e token org repo b (s # rest) n st))
            = calls st @ move_call org repo b s # map (move_call org repo b) (filter eligible rest)"
    by (simp only: move_loop_calls) (simp add: el)
  ultimately show ?thesis by blast
qed

text \<open>
  The listed item \<open>index\<close> is not reserved and has both properties: it is not skipped.
\<close>

theorem missing_path_or_name_skipped_witness:
  "\<not> reserved item_index
   \<and> \<not> skipped_with_warning (example_env answers_ok) (js ''t'') (js ''o'') (js ''r'')
         example_backup item_index
   \<and> truthy (path item_index) \<and> truthy (name item_index)"
proof -
  have h: "\<not> reserved item_index"
    by (simp add: reserved_def reservedItems_def item_index_def js_def)
  show ?thesis
    using h missing_path_or_name_skipped [OF h, of "example_env answers_ok" "js ''t''" "js ''o''"
        "js ''r''" example_backup]
    by (simp add: item_index_def js_def)
qed

text \<open>
  With "lacks both" in place of "lacks one" the property fails: an item with a \<open>name\<close> and
  no \<open>path\<close> does not lack both, is not reserved, and is skipped with the warning all the
  same.
\<close>

theorem skipped_only_when_both_missing_counterexample:
  "\<not> reserved item_no_path
   \<and> skipped_with_warning (example_env answers_ok) (js ''t'') (js ''o'') (js ''r'')
       example_backup item_no_path
   \<and> \<not> (\<not> truthy (path item_no_path) \<and> \<not> truthy (name item_no_path))"
  by (simp add: reserved_def reservedItems_def item_no_path_def js_def skipped_with_warning_def
      log_entry_def init_def move_loop.simps(2))

section \<open>Reserved items\<close>

text \<open>
  Claim C3. For every listing, the loop does with the listing what it does with the
  listing without its reserved items (names \<open>tools\<close> and \<open>block-collection\<close>): the same
  moved count, requests, move calls, outputs and status, and the same log apart from the
  lines for reserved items. Every reserved item leaves one such line, at level Info, and
  nothing else; the move operation is called for the items that are not reserved and
  have \<open>path\<close> and \<open>name\<close>, and for no other.
\<close>

theorem reserved_items_never_moved:
  "fst (move_loop e token org repo b sources n st)
   = fst (move_loop e token org repo b (filter (\<lambda>s. \<not> reserved s) sources) n st)
   \<and> same_but_skips (snd (move_loop e token org repo b sources n st))
       (snd (move_loop e token org repo b (filter (\<lambda>s. \<not> reserved s) sources) n st))
   \<and> filter is_reserved_skip (logs (snd (move_loop e token org repo b sources n st)))
     = filter is_reserved_skip (logs st)
       @ map (\<lambda>s. Info_skipping_reserved (name s)) (filter reserved sources)
   \<and> level_of (Info_skipping_reserved v) = Info
   \<and> calls (snd (move_loop e token org repo b sources n st))
     = calls st
       @ map (move_call org repo b)
           (filter (\<lambda>s. \<not> reserved s \<and> truthy (path s) \<and> truthy (name s)) sources)"
proof -
  have "same_but_skips st st"
    by (simp add: same_but_skips_def)
  moreover have "eligible = (\<lambda>s. \<not> reserved s \<and> truthy (path s) \<and> truthy (name s))"
    by (rule ext) (simp add: eligible_def)
  ultimately show ?thesis
    using move_loop_same_but_skips [of st st e token org repo b sources n]
      move_loop_calls [of e token org repo b sources n st]
    by (simp add: move_loop_skip_logs)
qed

text \<open>
  On the listing \<open>tools\<close>, \<open>nav\<close> the only move call is for \<open>nav\<close>, and \<open>tools\<close> leaves
  its informational line.
\<close>

theorem reserved_items_never_moved_witness:
  "calls (snd (move_loop (example_env answers_fail_then_ok) (js ''t'') (js ''o'') (js ''r'')
                 example_backup [item_tools, item_nav] 0 init))
   = [MoveSource (JString (js ''/o/r/nav'')) (js ''/o/r/backup-2025-01-02T03-04-05/nav'')]
   \<and> filter is_reserved_skip
        (logs (snd (move_loop (example_env answers_fail_then_ok) (js ''t'') (js ''o'') (js ''r'')
                 example_backup [item_tools, item_nav] 0 init)))
     = [Info_skipping_reserved (JString (js ''tools''))]"
proof -
  have r: "reserved item_tools" "\<not> reserved item_nav"
    by (simp_all add: reserved_def reservedItems_def item_tools_def item_nav_def js_def)
  have c: "calls (snd (move_loop (example_env answers_fail_then_ok) (js ''t'') (js ''o'') (js ''r'')
                 example_backup [item_nav] 0 init))
           = [MoveSource (JString (js ''/o/r/nav'')) (js ''/o/r/backup-2025-01-02T03-04-05/nav'')]"
    using r by (simp add: move_loop_calls eligible_def move_call_def destPath_def fileName_def
        item_nav_def example_backup_def init_def js_def)
  show ?thesis
    using reserved_items_never_moved [of "example_env answers_fail_then_ok" "js ''t''" "js ''o''"
        "js ''r''" example_backup "[item_tools, item_nav]" 0 init] r c
    by (simp add: same_but_skips_def init_def) (simp add: item_tools_def)
qed

section \<open>Destination paths\<close>

lemma to_usv_destination: "to_usv (js ''destination'') = js ''destination''"
  by (simp add: js_def is_trailing_surrogate_def is_leading_surrogate_def)

lemma to_usv_encodable: "encodeURIComponent s \<noteq> None \<Longrightarrow> to_usv s = s"
proof (induction s rule: to_usv.induct)
  case 1
  show ?case by simp
next
  case (2 c cs)
  show ?case
  proof (cases "is_unescaped c")
    case True
    then have n: "\<not> is_trailing_surrogate c" "\<not> is_leading_surrogate c"
      by (auto simp: is_unescaped_def is_trailing_surrogate_def is_leading_surrogate_def js_def
          word_le_nat_alt)
    from "2.prems" True have "encodeURIComponent cs \<noteq> None" by auto
    with "2.IH"(4) [OF n] n show ?thesis by simp
  next
    case unesc: False
    show ?thesis
    proof (cases "is_trailing_surrogate c")
      case True
      with "2.prems" unesc show ?thesis by simp
    next
      case trail: False
      show ?thesis
      proof (cases "is_leading_surrogate c")
        case lead: True
        show ?thesis
        proof (cases cs)
          case Nil
          with "2.prems" unesc trail lead show ?thesis by simp
        next
          case (Cons d ds)
          show ?thesis
          proof (cases "is_trailing_surrogate d")
            case True
            from "2.prems" unesc trail lead Cons True have "encodeURIComponent ds \<noteq> None"
              by auto
            with "2.IH"(2) [OF trail lead Cons True] unesc trail lead Cons True show ?thesis
              by simp
          next
            case False
            with "2.prems" unesc trail lead Cons show ?thesis by simp
          qed
        qed
      next
        case lead: False
        from "2.prems" unesc trail lead have "encodeURIComponent cs \<noteq> None" by auto
        with "2.IH"(4) [OF trail lead] trail lead show ?thesis by simp
      qed
    qed
  qed
qed

text \<open>
  Claim C7. For every item the loop moves, the destination passed to the move operation is
  \<open>/{org}/{repo}/{backup.path}/{fileName}\<close>, where the file name is \<open>name.ext\<close> when the
  item has an \<open>ext\<close> and \<open>name\<close> otherwise. The \<open>destination\<close> field of every move request
  sent is that path as the FormData stores it, a USVString.
\<close>

theorem move_destination_path:
  "calls (snd (move_loop e token org repo b sources n st))
   = calls st
     @ map (\<lambda>s. MoveSource (path s)
                (js ''/'' @ org @ js ''/'' @ repo @ js ''/'' @ backup_path b @ js ''/''
                 @ (if truthy (ext s) then to_string (name s) @ js ''.'' @ to_string (ext s)
                    else to_string (name s))))
         (filter eligible sources)
   \<and> map body (drop (length (requests st))
                 (requests (snd (move_loop e token org repo b sources n st))))
     = map (\<lambda>s. Some [(js ''destination'',
                to_usv
                  (js ''/'' @ org @ js ''/'' @ repo @ js ''/'' @ backup_path b @ js ''/''
                   @ (if truthy (ext s) then to_string (name s) @ js ''.'' @ to_string (ext s)
                      else to_string (name s))))])
         (filter (\<lambda>s. eligible s \<and> encodable s) sources)"
proof -
  have d: "destPath org repo b s
           = js ''/'' @ org @ js ''/'' @ repo @ js ''/'' @ backup_path b @ js ''/''
             @ (if truthy (ext s) then to_string (name s) @ js ''.'' @ to_string (ext s)
                else to_string (name s))" for s
    by (simp add: destPath_def fileName_def)
  have b: "body (move_request token org repo b s)
           = Some [(js ''destination'', to_usv (destPath org repo b s))]" for s
    by (simp add: move_request_def request_of_def formData_append_def to_usv_destination)
  have 1: "calls (snd (move_loop e token org repo b sources n st))
           = calls st
             @ map (\<lambda>s. MoveSource (path s)
                (js ''/'' @ org @ js ''/'' @ repo @ js ''/'' @ backup_path b @ js ''/''
                 @ (if truthy (ext s) then to_string (name s) @ js ''.'' @ to_string (ext s)
                    else to_string (name s))))
               (filter eligible sources)"
    unfolding move_loop_calls by (simp add: move_call_def d)
  have 2: "map body (drop (length (requests st))
                 (requests (snd (move_loop e token org repo b sources n st))))
           = map (\<lambda>s. Some [(js ''destination'', to_usv (destPath org repo b s))])
               (filter (\<lambda>s. eligible s \<and> encodable s) sources)"
    unfolding move_loop_requests by (simp add: b comp_def)
  show ?thesis
    using 1 2 unfolding d by (rule conjI)
qed

text \<open>
  The listing \<open>tools\<close>, \<open>index\<close> (with ext \<open>html\<close>), \<open>nav\<close> (without ext): the two move
  calls and the \<open>destination\<close> fields of the two requests.
\<close>

theorem move_destination_path_witness:
  "calls (snd (move_loop (example_env answers_fail_then_ok) (js ''t'') (js ''o'') (js ''r'')
                 example_backup [item_tools, item_index, item_nav] 0 init))
   = [MoveSource (JString (js ''/o/r/index'')) (js ''/o/r/backup-2025-01-02T03-04-05/index.html''),
      MoveSource (JString (js ''/o/r/nav'')) (js ''/o/r/backup-2025-01-02T03-04-05/nav'')]
   \<and> map body (requests (snd (move_loop (example_env answers_fail_then_ok) (js ''t'') (js ''o'')
                 (js ''r'') example_backup [item_tools, item_index, item_nav] 0 init)))
     = [Some [(js ''destination'', js ''/o/r/backup-2025-01-02T03-04-05/index.html'')],
        Some [(js ''destination'', js ''/o/r/backup-2025-01-02T03-04-05/nav'')]]"
proof -
  let ?L = "move_loop (example_env answers_fail_then_ok) (js ''t'') (js ''o'') (js ''r'')
              example_backup [item_tools, item_index, item_nav] 0 init"
  let ?d = "\<lambda>s. js ''/'' @ js ''o'' @ js ''/'' @ js ''r'' @ js ''/''
                 @ backup_path example_backup @ js ''/''
                 @ (if truthy (ext s) then to_string (name s) @ js ''.'' @ to_string (ext s)
                    else to_string (name s))"
  have r: "\<not> eligible item_tools" "eligible item_index" "eligible item_nav"
    by (simp_all add: reserved_def eligible_def reservedItems_def item_tools_def item_index_def
        item_nav_def js_def)
  have enc: "encodable item_index" "encodable item_nav"
    by (simp_all add: encodable_def encodedSourcePath_def item_index_def item_nav_def js_def
        is_unescaped_def is_trailing_surrogate_def is_leading_surrogate_def)
  have d: "?d item_index = js ''/o/r/backup-2025-01-02T03-04-05/index.html''"
    "?d item_nav = js ''/o/r/backup-2025-01-02T03-04-05/nav''"
    by (simp_all add: example_backup_def item_index_def item_nav_def js_def)
  have u: "to_usv (js ''/o/r/backup-2025-01-02T03-04-05/index.html'')
           = js ''/o/r/backup-2025-01-02T03-04-05/index.html''"
    "to_usv (js ''/o/r/backup-2025-01-02T03-04-05/nav'') = js ''/o/r/backup-2025-01-02T03-04-05/nav''"
    by (simp_all add: js_def is_trailing_surrogate_def is_leading_surrogate_def)
  note t = move_destination_path [of "example_env answers_fail_then_ok" "js ''t''" "js ''o''"
        "js ''r''" example_backup "[item_tools, item_index, item_nav]" 0 init]
  have 1: "calls (snd ?L) = [MoveSource (path item_index) (?d item_index),
                             MoveSource (path item_nav) (?d item_nav)]"
    using t [THEN conjunct1] r by (simp add: init_def)
  have 2: "map body (requests (snd ?L))
           = [Some [(js ''destination'', to_usv (?d item_index))],
              Some [(js ''destination'', to_usv (?d item_nav))]]"
    using t [THEN conjunct2] r enc by (simp add: init_def)
  show ?thesis
    using 1 2 unfolding d u by (simp add: item_index_def item_nav_def)
qed

section \<open>The backup folder\<close>

declare decimal.simps [simp del]

lemma digit_unat:
  assumes "n < 10"
  shows "unat (of_nat (0x30 + n) :: 16 word) = 0x30 + n"
proof -
  have "unat (of_nat (0x30 + n) :: 16 word) = (0x30 + n) mod 2 ^ LENGTH(16)"
    by (rule unat_of_nat)
  also have "\<dots> = 0x30 + n"
    using assms by simp
  finally show ?thesis .
qed

lemma digit_not_colon_dot:
  assumes "n < 10"
  shows "(of_nat (0x30 + n) :: 16 word) \<noteq> 0x3A" and "(of_nat (0x30 + n) :: 16 word) \<noteq> 0x2E"
proof -
  show "(of_nat (0x30 + n) :: 16 word) \<noteq> 0x3A"
  proof
    assume "(of_nat (0x30 + n) :: 16 word) = 0x3A"
    then have "unat (of_nat (0x30 + n) :: 16 word) = unat (0x3A :: 16 word)"
      by (rule arg_cong)
    then show False
      unfolding digit_unat [OF assms] using assms by simp
  qed
  show "(of_nat (0x30 + n) :: 16 word) \<noteq> 0x2E"
  proof
    assume "(of_nat (0x30 + n) :: 16 word) = 0x2E"
    then have "unat (of_nat (0x30 + n) :: 16 word) = unat (0x2E :: 16 word)"
      by (rule arg_cong)
    then show False
      unfolding digit_unat [OF assms] using assms by simp
  qed
qed


lemma decimal_digits: "c \<in> set (decimal n) \<Longrightarrow> c \<noteq> 0x3A \<and> c \<noteq> 0x2E"
proof (induction n rule: decimal.induct)
  case (1 n)
  show ?case
  proof (cases "n < 10")
    case True
    have "decimal n = [of_nat (0x30 + n)]"
      by (subst decimal.simps) (simp only: True if_True)
    with "1.prems" have "c = of_nat (0x30 + n)"
      by (simp only: list.set singleton_iff empty_iff insert_iff simp_thms)
    then show ?thesis
      using digit_not_colon_dot [OF True] by (simp only: simp_thms)
  next
    case False
    have m: "n mod 10 < 10" by simp
    have "decimal n = decimal (n div 10) @ [of_nat (0x30 + n mod 10)]"
      by (subst decimal.simps) (simp only: False if_False)
    with "1.prems" have "c \<in> set (decimal (n div 10)) \<or> c = of_nat (0x30 + n mod 10)"
      by (simp only: set_append list.set Un_iff singleton_iff empty_iff insert_iff simp_thms)
    then show ?thesis
    proof
      assume "c \<in> set (decimal (n div 10))"
      then show ?thesis by (rule "1.IH" [OF False])
    next
      assume "c = of_nat (0x30 + n mod 10)"
      then show ?thesis
        using digit_not_colon_dot [OF m] by (simp only: simp_thms)
    qed
  qed
qed


lemma decimal_length: "0 < k \<Longrightarrow> n < 10 ^ k \<Longrightarrow> length (decimal n) \<le> k"
proof (induction k arbitrary: n)
  case 0
  then show ?case by simp
next
  case (Suc k)
  show ?case
  proof (cases "n < 10")
    case True
    have "decimal n = [of_nat (0x30 + n)]"
      by (subst decimal.simps) (simp only: True if_True)
    then show ?thesis by simp
  next
    case False
    have d: "decimal n = decimal (n div 10) @ [of_nat (0x30 + n mod 10)]"
      by (subst decimal.simps) (simp only: False if_False)
    from False Suc.prems have k: "0 < k"
      by (cases k) simp_all
    from Suc.prems(2) have "n < 10 * 10 ^ k" by simp
    then have "n div 10 < 10 ^ k" by arith
    from Suc.IH [OF k this] show ?thesis
      unfolding d by simp
  qed
qed

lemma padded_length: "0 < k \<Longrightarrow> n < 10 ^ k \<Longrightarrow> length (padded n k) = k"
  using decimal_length [of k n] by (simp add: padded_def)

lemma padded_plain: "replace_colon_dot (padded n k) = padded n k"
proof -
  have "\<forall>c \<in> set (padded n k). c \<noteq> 0x3A \<and> c \<noteq> 0x2E"
    using decimal_digits by (auto simp: padded_def)
  then have "map (\<lambda>c. if c = 0x3A \<or> c = 0x2E then 0x2D else c) (padded n k) = map (\<lambda>c. c) (padded n k)"
    by (intro map_cong) auto
  then show ?thesis
    unfolding replace_colon_dot_def by simp
qed


lemma replace_colon_dot_append:
  "replace_colon_dot (xs @ ys) = replace_colon_dot xs @ replace_colon_dot ys"
  by (simp add: replace_colon_dot_def)

lemma replace_colon_dot_literals:
  "replace_colon_dot (js ''-'') = js ''-''"
  "replace_colon_dot (js ''T'') = js ''T''"
  "replace_colon_dot (js '':'') = js ''-''"
  "replace_colon_dot (js ''.'') = js ''-''"
  by (simp_all add: replace_colon_dot_def js_def)

lemma timestamp_calendar:
  assumes "calendar_date d"
  shows "timestamp d
         = padded (nat (year d)) 4 @ js ''-'' @ padded (month d) 2 @ js ''-'' @ padded (day d) 2
           @ js ''T'' @ padded (hours d) 2 @ js ''-'' @ padded (minutes d) 2 @ js ''-''
           @ padded (seconds d) 2"
    and "length (padded (nat (year d)) 4) = 4" and "length (padded (month d) 2) = 2"
    and "length (padded (day d) 2) = 2" and "length (padded (hours d) 2) = 2"
    and "length (padded (minutes d) 2) = 2" and "length (padded (seconds d) 2) = 2"
proof -
  show l: "length (padded (nat (year d)) 4) = 4" "length (padded (month d) 2) = 2"
    "length (padded (day d) 2) = 2" "length (padded (hours d) 2) = 2"
    "length (padded (minutes d) 2) = 2" "length (padded (seconds d) 2) = 2"
    by (rule padded_length, simp, use assms in \<open>auto simp: calendar_date_def\<close>)+
  have len: "length (js s) = length s" for s
    by (simp add: js_def)
  have "replace_colon_dot (toISOString d)
        = (padded (nat (year d)) 4 @ js ''-'' @ padded (month d) 2 @ js ''-'' @ padded (day d) 2
           @ js ''T'' @ padded (hours d) 2 @ js ''-'' @ padded (minutes d) 2 @ js ''-''
           @ padded (seconds d) 2)
          @ (js ''-'' @ padded (milliseconds d) 3 @ replace_colon_dot (js ''Z''))"
    using assms
    by (simp add: toISOString_def calendar_date_def replace_colon_dot_append padded_plain
        replace_colon_dot_literals)
  then show "timestamp d
         = padded (nat (year d)) 4 @ js ''-'' @ padded (month d) 2 @ js ''-'' @ padded (day d) 2
           @ js ''T'' @ padded (hours d) 2 @ js ''-'' @ padded (minutes d) 2 @ js ''-''
           @ padded (seconds d) 2"
    unfolding timestamp_def by (simp add: l len)
qed

lemma no_colon_dot_after_replace: "0x3A \<notin> set (replace_colon_dot s) \<and> 0x2E \<notin> set (replace_colon_dot s)"
  by (auto simp: replace_colon_dot_def)

lemma createBackupFolder_result:
  assumes "createBackupFolder e token org repo parentPath st = (Inr b, st1)"
  shows "backup_name b = js ''backup-'' @ timestamp (now e)"
    and "backup_path b = (if parentPath \<noteq> [] then parentPath @ js ''/'' @ backup_name b
                          else backup_name b)"
  using assms
  by (auto simp: createBackupFolder_def Let_def split: prod.splits sum.splits)

text \<open>
  Claim C6. When \<open>createBackupFolder\<close> creates a folder, at a date the clock prints with a
  four-digit year, its name is \<open>backup-\<close> followed by the 19 characters
  \<open>YYYY-MM-DDTHH-mm-ss\<close> of the UTC time: second precision, hyphens where the ISO form has
  colons, and neither colon nor period left. Its path is \<open>parentPath/name\<close> when the
  parent path is not empty and the name alone otherwise.
\<close>

theorem backup_folder_name_and_path:
  assumes "calendar_date (now e)"
    and "createBackupFolder e token org repo parentPath st = (Inr b, st1)"
  shows "backup_name b
         = js ''backup-'' @ padded (nat (year (now e))) 4 @ js ''-'' @ padded (month (now e)) 2
           @ js ''-'' @ padded (day (now e)) 2 @ js ''T'' @ padded (hours (now e)) 2 @ js ''-''
           @ padded (minutes (now e)) 2 @ js ''-'' @ padded (seconds (now e)) 2
       \<and> length (padded (nat (year (now e))) 4) = 4 \<and> length (padded (month (now e)) 2) = 2
       \<and> length (padded (day (now e)) 2) = 2 \<and> length (padded (hours (now e)) 2) = 2
       \<and> length (padded (minutes (now e)) 2) = 2 \<and> length (padded (seconds (now e)) 2) = 2
       \<and> length (backup_name b) = length ''backup-'' + 19
       \<and> 0x3A \<notin> set (drop 7 (backup_name b)) \<and> 0x2E \<notin> set (drop 7 (backup_name b))
       \<and> backup_path b = (if parentPath \<noteq> [] then parentPath @ js ''/'' @ backup_name b
                           else backup_name b)"
proof -
  note t = timestamp_calendar [OF assms(1)]
  note c = createBackupFolder_result [OF assms(2)]
  have len: "length (js s) = length s" for s
    by (simp add: js_def)
  have n: "0x3A \<notin> set (timestamp (now e)) \<and> 0x2E \<notin> set (timestamp (now e))"
    using no_colon_dot_after_replace [of "toISOString (now e)"]
    unfolding timestamp_def by (meson in_set_takeD)
  have d: "drop 7 (backup_name b) = timestamp (now e)"
    by (simp add: c(1) len)
  have l: "length (backup_name b) = length ''backup-'' + 19"
    unfolding c(1) t(1) by (simp add: t(2-7) len)
  show ?thesis
    unfolding d using n c(2) l t(2-7) unfolding c(1) t(1) by simp
qed

text \<open>
  The folder created at 2025-01-02T03:04:05.067Z without a parent path.
\<close>

theorem backup_folder_name_and_path_witness:
  "calendar_date (now (example_env answers_ok))
   \<and> (\<exists>st1. createBackupFolder (example_env answers_ok) (js ''t'') (js ''o'') (js ''r'') [] init
             = (Inr example_backup, st1))
   \<and> backup_name example_backup = js ''backup-2025-01-02T03-04-05''
   \<and> length (backup_name example_backup) = 26"
proof -
  have h1: "calendar_date (now (example_env answers_ok))"
    by (simp add: example_env_def example_date_def calendar_date_def)
  have ts: "timestamp example_date = js ''2025-01-02T03-04-05''"
    by (simp add: timestamp_def toISOString_def example_date_def padded_def decimal.simps
        replace_colon_dot_def js_def)
  obtain st1 where h2: "createBackupFolder (example_env answers_ok) (js ''t'') (js ''o'') (js ''r'') []
      init = (Inr example_backup, st1)"
    by (simp add: createBackupFolder_def daFetch_def Let_def example_env_def answers_ok_def
        json_response_def ok_def init_def called_def ts example_backup_def js_def)
  show ?thesis
    using h1 h2 backup_folder_name_and_path [OF h1 h2]
    by (auto simp: example_backup_def js_def)
qed

section \<open>The run up to the loop\<close>

lemma listSources_state:
  assumes "listSources e token org repo p st = (r, st1)"
  shows "st1 = snd (daFetch e token (list_endpoint org repo p) no_options
                      (called (ListSources org repo p) st))"
proof -
  obtain r0 st0 where
    f: "daFetch e token (list_endpoint org repo p) no_options (called (ListSources org repo p) st)
        = (r0, st0)"
    by (cases "daFetch e token (list_endpoint org repo p) no_options
                 (called (ListSources org repo p) st)")
  have "st1 = st0"
  proof (cases r0)
    case (Inl err)
    with assms f show ?thesis by (simp add: listSources_def)
  next
    case (Inr data)
    show ?thesis
    proof (cases data)
      case Payload_null
      with assms f Inr show ?thesis by (simp add: listSources_def)
    next
      case (Payload_json j)
      show ?thesis
      proof (cases j)
        case (Json_object items)
        with assms f Inr Payload_json show ?thesis
          by (cases items) (simp_all add: listSources_def)
      qed (use assms f Inr Payload_json in \<open>simp_all add: listSources_def\<close>)
    next
      case (Payload_text t)
      with assms f Inr show ?thesis by (simp add: listSources_def)
    qed
  qed
  with f show ?thesis by simp
qed

lemma listSources_effects:
  assumes "listSources e token org repo p st = (r, st1)"
  shows "requests st1 = requests st @ [request_of token (list_endpoint org repo p) no_options]"
    and "calls st1 = calls st @ [ListSources org repo p]"
    and "outputs st1 = outputs st"
    and "failed st1 = failed st"
proof -
  obtain r0 where
    f: "daFetch e token (list_endpoint org repo p) no_options (called (ListSources org repo p) st)
        = (r0, st1)"
    using listSources_state [OF assms]
    by (cases "daFetch e token (list_endpoint org repo p) no_options
                 (called (ListSources org repo p) st)") simp
  show "requests st1 = requests st @ [request_of token (list_endpoint org repo p) no_options]"
    and "calls st1 = calls st @ [ListSources org repo p]"
    and "outputs st1 = outputs st"
    and "failed st1 = failed st"
    using daFetch_effects(1-4) [OF f] by (simp_all add: called_def)
qed


lemma createBackupFolder_effects:
  assumes "createBackupFolder e token org repo parentPath st = (r, st1)"
  shows "length (requests st1) = Suc (length (requests st))"
    and "calls st1 = calls st @ [CreateBackupFolder org repo parentPath]"
    and "outputs st1 = outputs st"
    and "failed st1 = failed st"
proof -
  let ?name = "js ''backup-'' @ timestamp (now e)"
  let ?path = "if parentPath \<noteq> [] then parentPath @ js ''/'' @ ?name else ?name"
  let ?f = "daFetch e token (js ''/source/'' @ org @ js ''/'' @ repo @ js ''/'' @ ?path)
              \<lparr>opt_method = Some (js ''POST''), opt_body = None\<rparr>
              (called (CreateBackupFolder org repo parentPath) st)"
  obtain r0 st0 where f: "?f = (r0, st0)"
    by (cases ?f)
  note d = daFetch_effects(1-4) [OF f]
  have "st1 = st0 \<or> st1 = log_entry (Info_created ?name) st0"
    using assms f by (cases r0) (simp_all add: createBackupFolder_def Let_def)
  then show "length (requests st1) = Suc (length (requests st))"
    and "calls st1 = calls st @ [CreateBackupFolder org repo parentPath]"
    and "outputs st1 = outputs st"
    and "failed st1 = failed st"
    using d by (auto simp: called_def log_entry_def)
qed

lemma kinds_partition:
  "length sources
   = length (filter reserved sources) + length (filter malformed sources)
     + length (filter eligible sources)"
  by (induction sources) (auto simp: malformed_def eligible_def)


lemma run_reaches_loop:
  assumes "get_inputs e = Inr (org, repo, p)"
    and "get_token e = Inr token"
    and "listSources e token org repo p (log_entry (Info_starting org repo p) init)
         = (Inr sources, st2)"
    and "sources \<noteq> []"
    and "createBackupFolder e token org repo p (log_sources sources st2) = (Inr b, st4)"
    and "move_loop e token org repo b sources 0 st4 = (k, st5)"
  shows "run e
         = setOutput (Backup_folder_name (backup_name b))
             (log_entry (Info_completed k (backup_name b)) st5)"
  using assms by (simp add: run_def run_try_def Let_def)

lemma run_folder_refused:
  assumes "get_inputs e = Inr (org, repo, p)"
    and "get_token e = Inr token"
    and "listSources e token org repo p (log_entry (Info_starting org repo p) init)
         = (Inr sources, st2)"
    and "sources \<noteq> []"
    and "createBackupFolder e token org repo p (log_sources sources st2) = (Inl err, st4)"
  shows "run e
         = setFailed err (setOutput (Error_message err) (log_entry (Error_backup_failed err) st4))"
  using assms by (simp add: run_def run_try_def Let_def)

lemma state_before_loop:
  assumes "listSources e token org repo p (log_entry (Info_starting org repo p) init)
           = (Inr sources, st2)"
    and "createBackupFolder e token org repo p (log_sources sources st2) = (r, st4)"
  shows "calls st4 = [ListSources org repo p, CreateBackupFolder org repo p]"
    and "length (requests st4) = 2"
    and "outputs st4 = []" and "failed st4 = None"
  using listSources_effects [OF assms(1)] createBackupFolder_effects [OF assms(2)]
  by (simp_all add: log_sources_def log_entry_def init_def)

text \<open>
  Claim C2, as amended. For every run with usable org and repo, a token, a non-empty
  listing and a backup folder that was created, the number of move calls is the number
  of listed items minus the reserved ones minus the malformed ones (not reserved, lacking
  \<open>path\<close> or \<open>name\<close>): one call for each remaining item, in listing order. Besides the
  list and the creation request, the run sends one request for each such item whose path
  can be encoded.
\<close>

theorem move_calls_count:
  assumes "get_inputs e = Inr (org, repo, p)"
    and "get_token e = Inr token"
    and "listSources e token org repo p (log_entry (Info_starting org repo p) init)
         = (Inr sources, st2)"
    and "sources \<noteq> []"
    and "createBackupFolder e token org repo p (log_sources sources st2) = (Inr b, st4)"
  shows "int (length (filter is_move (calls (run e))))
         = int (length sources) - int (length (filter reserved sources))
           - int (length (filter malformed sources))
       \<and> filter is_move (calls (run e)) = map (move_call org repo b) (filter eligible sources)
       \<and> int (length (requests (run e)))
         = 2 + int (length (filter (\<lambda>s. eligible s \<and> encodable s) sources))"
proof -
  obtain k st5 where l: "move_loop e token org repo b sources 0 st4 = (k, st5)"
    by (cases "move_loop e token org repo b sources 0 st4")
  have r: "run e = setOutput (Backup_folder_name (backup_name b))
                    (log_entry (Info_completed k (backup_name b)) st5)"
    by (rule run_reaches_loop [OF assms l])
  note s4 = state_before_loop [OF assms(3,5)]
  have "calls st5 = calls st4 @ map (move_call org repo b) (filter eligible sources)"
    using move_loop_calls [of e token org repo b sources 0 st4] l by simp
  then have c: "calls (run e)
           = [ListSources org repo p, CreateBackupFolder org repo p]
             @ map (move_call org repo b) (filter eligible sources)"
    using s4(1) by (simp add: r setOutput_def log_entry_def)
  have m: "filter is_move (calls (run e)) = map (move_call org repo b) (filter eligible sources)"
    unfolding c by (simp add: move_call_def filter_map comp_def)
  have "requests st5
        = requests st4
          @ map (move_request token org repo b) (filter (\<lambda>s. eligible s \<and> encodable s) sources)"
    using move_loop_requests [of e token org repo b sources 0 st4] l by simp
  then have q: "length (requests (run e))
           = 2 + length (filter (\<lambda>s. eligible s \<and> encodable s) sources)"
    using s4(2) by (simp add: r setOutput_def log_entry_def)
  have "int (length (filter eligible sources))
        = int (length sources) - int (length (filter reserved sources))
          - int (length (filter malformed sources))"
    using kinds_partition [of sources] by simp
  then show ?thesis
    using m q by simp
qed

section \<open>Example runs, evaluated\<close>

lemma example_inputs:
  "get_inputs (example_env a) = Inr (js ''o'', js ''r'', [])"
  "get_token (example_env a) = Inr (js ''t'')"
  by (simp_all add: get_inputs_def get_token_def example_env_def trim_def is_space_def js_def)

lemma example_fetch: "fetch (example_env a) history req = a (length history)"
  by (simp add: example_env_def)

lemma includes_json: "includes_str (js ''application/json'') (js ''application/json'')"
  by (simp add: js_def)

lemma daFetch_json_response:
  assumes "fetch e (requests st) (request_of token endpoint opts) = json_response j"
  shows "daFetch e token endpoint opts st
         = (Inr (Payload_json j), st\<lparr>requests := requests st @ [request_of token endpoint opts]\<rparr>)"
  unfolding daFetch_def Let_def assms json_response_def
  by (simp add: ok_def includes_json)

lemma daFetch_status_204:
  assumes "fetch e (requests st) (request_of token endpoint opts) = Response res"
    and "status res = 204"
  shows "daFetch e token endpoint opts st
         = (Inr Payload_null, st\<lparr>requests := requests st @ [request_of token endpoint opts]\<rparr>)"
  unfolding daFetch_def Let_def assms(1)
  by (simp add: ok_def assms(2))

lemma daFetch_status_500:
  assumes "fetch e (requests st) (request_of token endpoint opts) = status_response 500"
  shows "daFetch e token endpoint opts st
         = (Inl (Api_error 500 []),
            log_entry (Warning_api_error 500 [])
              (st\<lparr>requests := requests st @ [request_of token endpoint opts]\<rparr>))"
  unfolding daFetch_def Let_def assms status_response_def
  by (simp add: ok_def)

lemma example_listing:
  assumes "a 0 = json_response (Json_array items)" and "requests st = []"
  shows "\<exists>st2. listSources (example_env a) token org repo p st = (Inr items, st2)"
proof -
  have "fetch (example_env a) (requests (called (ListSources org repo p) st))
          (request_of token (list_endpoint org repo p) no_options)
        = json_response (Json_array items)"
    using assms by (simp add: example_fetch called_def)
  from daFetch_json_response [OF this] show ?thesis
    by (simp add: listSources_def)
qed

lemma example_folder_created:
  assumes "a (length (requests st)) = status_response 204"
  shows "\<exists>b st1. createBackupFolder (example_env a) token org repo parentPath st = (Inr b, st1)"
proof -
  have "fetch (example_env a) (requests (called c st)) req = Response
          \<lparr>status = 204, content_type = None, body_text = [], body_json = None\<rparr>" for c req
    using assms by (simp add: example_fetch called_def status_response_def)
  from daFetch_status_204 [OF this] show ?thesis
    by (simp add: createBackupFolder_def Let_def)
qed

lemma example_folder_refused:
  assumes "a (length (requests st)) = status_response 500"
  shows "\<exists>st1. createBackupFolder (example_env a) token org repo parentPath st
               = (Inl (Api_error 500 []), st1)"
proof -
  have "fetch (example_env a) (requests (called c st)) req = status_response 500" for c req
    using assms by (simp add: example_fetch called_def)
  from daFetch_status_500 [OF this] show ?thesis
    by (simp add: createBackupFolder_def Let_def)
qed

lemma example_kinds:
  "reserved item_tools" "eligible item_index" "eligible item_nav" "malformed item_no_path"
  by (simp_all add: reserved_def eligible_def malformed_def reservedItems_def item_tools_def
      item_index_def item_nav_def item_no_path_def js_def)

text \<open>
  The run on the listing \<open>tools\<close>, \<open>index\<close> with every request answered: one move call, and
  three requests in all.
\<close>

theorem move_calls_count_witness:
  "get_inputs (example_env answers_ok) = Inr (js ''o'', js ''r'', [])
   \<and> get_token (example_env answers_ok) = Inr (js ''t'')
   \<and> (\<exists>st2 b st4.
         listSources (example_env answers_ok) (js ''t'') (js ''o'') (js ''r'') []
           (log_entry (Info_starting (js ''o'') (js ''r'') []) init)
         = (Inr [item_tools, item_index], st2)
         \<and> createBackupFolder (example_env answers_ok) (js ''t'') (js ''o'') (js ''r'') []
             (log_sources [item_tools, item_index] st2)
           = (Inr b, st4))
   \<and> int (length (filter is_move (calls (run (example_env answers_ok))))) = 2 - 1 - 0
   \<and> length (requests (run (example_env answers_ok))) = 3"
proof -
  let ?e = "example_env answers_ok"
  let ?st1 = "log_entry (Info_starting (js ''o'') (js ''r'') []) init"
  note h1 = example_inputs(1) [of answers_ok] and h2 = example_inputs(2) [of answers_ok]
  have "\<exists>st2. listSources ?e (js ''t'') (js ''o'') (js ''r'') [] ?st1
                = (Inr [item_tools, item_index], st2)"
    by (rule example_listing) (simp_all add: answers_ok_def log_entry_def init_def)
  then obtain st2 where h3: "listSources ?e (js ''t'') (js ''o'') (js ''r'') [] ?st1
                             = (Inr [item_tools, item_index], st2)"
    by blast
  have "length (requests st2) = 1"
    using listSources_effects(1) [OF h3] by (simp add: log_entry_def init_def)
  then have "answers_ok (length (requests (log_sources [item_tools, item_index] st2)))
             = status_response 204"
    by (simp add: answers_ok_def log_sources_def)
  then obtain b st4 where h5: "createBackupFolder ?e (js ''t'') (js ''o'') (js ''r'') []
                                 (log_sources [item_tools, item_index] st2) = (Inr b, st4)"
    using example_folder_created by blast
  have h4: "[item_tools, item_index] \<noteq> []" by simp
  have k: "\<not> eligible item_tools" "\<not> malformed item_tools" "\<not> reserved item_index"
    "\<not> malformed item_index"
    using source_kinds(1) [OF example_kinds(1)] source_kinds(3) [OF example_kinds(2)] by simp_all
  have enc: "encodable item_index"
    by (simp add: encodable_def encodedSourcePath_def item_index_def js_def is_unescaped_def
        is_trailing_surrogate_def is_leading_surrogate_def)
  from move_calls_count [OF h1 h2 h3 h4 h5] h1 h2 h3 h5 show ?thesis
    using k example_kinds(1,2) enc by auto
qed

text \<open>
  Without the hypothesis on the folder the count fails: with org, repo and token present
  and one movable item listed, a run whose folder creation is refused with status 500
  makes no move call.
\<close>

theorem move_calls_count_counterexample:
  "get_inputs (example_env answers_create_fails) = Inr (js ''o'', js ''r'', [])
   \<and> get_token (example_env answers_create_fails) = Inr (js ''t'')
   \<and> fst (listSources (example_env answers_create_fails) (js ''t'') (js ''o'') (js ''r'') []
            (log_entry (Info_starting (js ''o'') (js ''r'') []) init)) = Inr [item_index]
   \<and> int (length (filter is_move (calls (run (example_env answers_create_fails))))) = 0
   \<and> int (length [item_index]) - int (length (filter reserved [item_index]))
       - int (length (filter malformed [item_index])) = 1"
proof -
  let ?e = "example_env answers_create_fails"
  let ?st1 = "log_entry (Info_starting (js ''o'') (js ''r'') []) init"
  note h1 = example_inputs(1) [of answers_create_fails]
    and h2 = example_inputs(2) [of answers_create_fails]
  have "\<exists>st2. listSources ?e (js ''t'') (js ''o'') (js ''r'') [] ?st1 = (Inr [item_index], st2)"
    by (rule example_listing) (simp_all add: answers_create_fails_def log_entry_def init_def)
  then obtain st2 where h3: "listSources ?e (js ''t'') (js ''o'') (js ''r'') [] ?st1
                             = (Inr [item_index], st2)"
    by blast
  have "length (requests st2) = 1"
    using listSources_effects(1) [OF h3] by (simp add: log_entry_def init_def)
  then have "answers_create_fails (length (requests (log_sources [item_index] st2)))
             = status_response 500"
    by (simp add: answers_create_fails_def log_sources_def)
  then obtain st4 where h5: "createBackupFolder ?e (js ''t'') (js ''o'') (js ''r'') []
                               (log_sources [item_index] st2) = (Inl (Api_error 500 []), st4)"
    using example_folder_refused by blast
  have h4: "[item_index] \<noteq> []" by simp
  have c: "calls (run ?e) = [ListSources (js ''o'') (js ''r'') [], CreateBackupFolder (js ''o'') (js ''r'') []]"
    using state_before_loop(1) [OF h3 h5]
    by (simp add: run_folder_refused [OF h1 h2 h3 h4 h5] setFailed_def setOutput_def log_entry_def)
  have k: "\<not> reserved item_index" "\<not> malformed item_index"
    using source_kinds(3) [OF example_kinds(2)] by simp_all
  show ?thesis
    using h1 h2 h3 c k by simp
qed

section \<open>Runs that make no move\<close>

text \<open>
  Claim C4. When the listing is empty the run makes the list call and no other, sends no
  request besides the list request, sets the output \<open>backup_folder_name\<close> to
  \<open>no-backup-needed\<close> and does not fail.
\<close>

theorem empty_listing_short_circuit:
  assumes "get_inputs e = Inr (org, repo, p)"
    and "get_token e = Inr token"
    and "listSources e token org repo p (log_entry (Info_starting org repo p) init)
         = (Inr [], st2)"
  shows "calls (run e) = [ListSources org repo p]
       \<and> requests (run e) = [request_of token (list_endpoint org repo p) no_options]
       \<and> outputs (run e) = [Backup_folder_name (js ''no-backup-needed'')]
       \<and> failed (run e) = None"
proof -
  have r: "run e = setOutput (Backup_folder_name (js ''no-backup-needed''))
                    (log_entry Info_no_sources (log_sources [] st2))"
    using assms by (simp add: run_def run_try_def Let_def)
  show ?thesis
    using listSources_effects [OF assms(3)]
    by (simp add: r setOutput_def log_entry_def log_sources_def init_def)
qed

text \<open>
  The run whose list request is answered with an empty array.
\<close>

theorem empty_listing_short_circuit_witness:
  "get_inputs (example_env answers_empty) = Inr (js ''o'', js ''r'', [])
   \<and> get_token (example_env answers_empty) = Inr (js ''t'')
   \<and> (\<exists>st2. listSources (example_env answers_empty) (js ''t'') (js ''o'') (js ''r'') []
              (log_entry (Info_starting (js ''o'') (js ''r'') []) init) = (Inr [], st2))
   \<and> calls (run (example_env answers_empty)) = [ListSources (js ''o'') (js ''r'') []]
   \<and> length (requests (run (example_env answers_empty))) = 1
   \<and> outputs (run (example_env answers_empty)) = [Backup_folder_name (js ''no-backup-needed'')]
   \<and> failed (run (example_env answers_empty)) = None"
proof -
  let ?e = "example_env answers_empty"
  let ?st1 = "log_entry (Info_starting (js ''o'') (js ''r'') []) init"
  note h1 = example_inputs(1) [of answers_empty] and h2 = example_inputs(2) [of answers_empty]
  have "\<exists>st2. listSources ?e (js ''t'') (js ''o'') (js ''r'') [] ?st1 = (Inr [], st2)"
    by (rule example_listing) (simp_all add: answers_empty_def log_entry_def init_def)
  then obtain st2 where h3: "listSources ?e (js ''t'') (js ''o'') (js ''r'') [] ?st1 = (Inr [], st2)"
    by blast
  from empty_listing_short_circuit [OF h1 h2 h3] h1 h2 h3 show ?thesis
    by auto
qed

lemma blank_inputs:
  assumes "blank (input_org e) \<or> blank (input_repo e)"
  shows "get_inputs e = Inl (Error (js ''Both org and repo inputs are required''))"
proof (cases "input_org e")
  case None
  then show ?thesis by (simp add: get_inputs_def)
next
  case org: (Some o_raw)
  show ?thesis
  proof (cases "input_repo e")
    case None
    with org show ?thesis by (simp add: get_inputs_def)
  next
    case (Some r_raw)
    with org assms show ?thesis by (auto simp: get_inputs_def blank_def)
  qed
qed

text \<open>
  Claim C8. When \<open>org\<close> or \<open>repo\<close> is missing or trims to the empty string, the run sends
  no request and calls no operation of the API client; it logs the error, sets the output
  \<open>error_message\<close> and marks the run failed with the message that both inputs are
  required.
\<close>

theorem missing_org_or_repo_fails:
  assumes "blank (input_org e) \<or> blank (input_repo e)"
  shows "requests (run e) = [] \<and> calls (run e) = []
       \<and> outputs (run e) = [Error_message (Error (js ''Both org and repo inputs are required''))]
       \<and> failed (run e) = Some (Error (js ''Both org and repo inputs are required''))
       \<and> logs (run e)
         = [Error_backup_failed (Error (js ''Both org and repo inputs are required''))]"
  by (simp add: run_def run_try_def blank_inputs [OF assms] setFailed_def setOutput_def
      log_entry_def init_def)

text \<open>
  A run whose \<open>repo\<close> input is two spaces, and a run without \<open>org\<close>.
\<close>

theorem missing_org_or_repo_fails_witness:
  "blank (input_repo ((example_env answers_ok)\<lparr>input_repo := Some (js ''  '')\<rparr>))
   \<and> requests (run ((example_env answers_ok)\<lparr>input_repo := Some (js ''  '')\<rparr>)) = []
   \<and> calls (run ((example_env answers_ok)\<lparr>input_repo := Some (js ''  '')\<rparr>)) = []
   \<and> failed (run ((example_env answers_ok)\<lparr>input_repo := Some (js ''  '')\<rparr>))
     = Some (Error (js ''Both org and repo inputs are required''))
   \<and> blank (input_org ((example_env answers_ok)\<lparr>input_org := None\<rparr>))
   \<and> requests (run ((example_env answers_ok)\<lparr>input_org := None\<rparr>)) = []
   \<and> outputs (run ((example_env answers_ok)\<lparr>input_org := None\<rparr>))
     = [Error_message (Error (js ''Both org and repo inputs are required''))]"
proof -
  have h1: "blank (input_repo ((example_env answers_ok)\<lparr>input_repo := Some (js ''  '')\<rparr>))"
    by (simp add: blank_def trim_def is_space_def js_def)
  have h2: "blank (input_org ((example_env answers_ok)\<lparr>input_org := None\<rparr>))"
    by (simp add: blank_def)
  show ?thesis
    using h1 h2
      missing_org_or_repo_fails [of "(example_env answers_ok)\<lparr>input_repo := Some (js ''  '')\<rparr>"]
      missing_org_or_repo_fails [of "(example_env answers_ok)\<lparr>input_org := None\<rparr>"]
    by blast
qed

text \<open>
  Claim C10. When the list request is answered with status 204, \<open>daFetch\<close> returns \<open>null\<close>,
  \<open>listSources\<close> reads \<open>sources\<close> of it and throws a TypeError, and the run fails with that
  error: it sets \<open>error_message\<close>, not the output of an empty listing, and makes no
  further call.
\<close>

theorem no_content_listing_aborts:
  assumes "get_inputs e = Inr (org, repo, p)"
    and "get_token e = Inr token"
    and "fetch e [] (request_of token (list_endpoint org repo p) no_options) = Response res"
    and "status res = 204"
  shows "fst (daFetch e token (list_endpoint org repo p) no_options
                (called (ListSources org repo p) (log_entry (Info_starting org repo p) init)))
         = Inr Payload_null
       \<and> fst (listSources e token org repo p (log_entry (Info_starting org repo p) init))
         = Inl TypeError_null_sources
       \<and> failed (run e) = Some TypeError_null_sources
       \<and> outputs (run e) = [Error_message TypeError_null_sources]
       \<and> calls (run e) = [ListSources org repo p]
       \<and> requests (run e) = [request_of token (list_endpoint org repo p) no_options]"
proof -
  let ?st = "called (ListSources org repo p) (log_entry (Info_starting org repo p) init)"
  have q: "requests ?st = []"
    by (simp add: called_def log_entry_def init_def)
  have d: "daFetch e token (list_endpoint org repo p) no_options ?st
           = (Inr Payload_null,
              ?st\<lparr>requests := requests ?st
                      @ [request_of token (list_endpoint org repo p) no_options]\<rparr>)"
    by (rule daFetch_status_204 [OF _ assms(4)]) (simp add: q assms(3))
  have l: "listSources e token org repo p (log_entry (Info_starting org repo p) init)
           = (Inl TypeError_null_sources,
              ?st\<lparr>requests := requests ?st
                      @ [request_of token (list_endpoint org repo p) no_options]\<rparr>)"
    by (simp add: listSources_def d)
  have r: "run e
           = setFailed TypeError_null_sources
               (setOutput (Error_message TypeError_null_sources)
                  (log_entry (Error_backup_failed TypeError_null_sources)
                     (?st\<lparr>requests := requests ?st
                             @ [request_of token (list_endpoint org repo p) no_options]\<rparr>)))"
    using assms(1,2) l by (simp add: run_def run_try_def Let_def)
  have a: "fst (daFetch e token (list_endpoint org repo p) no_options ?st) = Inr Payload_null"
    by (simp only: d fst_conv)
  have b: "fst (listSources e token org repo p (log_entry (Info_starting org repo p) init))
           = Inl TypeError_null_sources"
    by (simp only: l fst_conv)
  have c: "failed (run e) = Some TypeError_null_sources
       \<and> outputs (run e) = [Error_message TypeError_null_sources]
       \<and> calls (run e) = [ListSources org repo p]
       \<and> requests (run e) = [request_of token (list_endpoint org repo p) no_options]"
    unfolding r by (simp add: setFailed_def setOutput_def log_entry_def called_def init_def)
  from a b c show ?thesis by (simp only: simp_thms)
qed

text \<open>
  The run whose every request is answered with status 204.
\<close>

theorem no_content_listing_aborts_witness:
  "get_inputs (example_env answers_204) = Inr (js ''o'', js ''r'', [])
   \<and> get_token (example_env answers_204) = Inr (js ''t'')
   \<and> fetch (example_env answers_204) []
        (request_of (js ''t'') (list_endpoint (js ''o'') (js ''r'') []) no_options)
      = status_response 204
   \<and> failed (run (example_env answers_204)) = Some TypeError_null_sources
   \<and> outputs (run (example_env answers_204)) = [Error_message TypeError_null_sources]"
proof -
  note h1 = example_inputs(1) [of answers_204] and h2 = example_inputs(2) [of answers_204]
  have h3: "fetch (example_env answers_204) []
        (request_of (js ''t'') (list_endpoint (js ''o'') (js ''r'') []) no_options)
      = Response \<lparr>status = 204, content_type = None, body_text = [], body_json = None\<rparr>"
    by (simp add: example_fetch answers_204_def status_response_def)
  have h4: "status \<lparr>status = 204, content_type = None, body_text = [], body_json = None\<rparr> = 204"
    by simp
  from no_content_listing_aborts [OF h1 h2 h3 h4] h1 h2 h3 show ?thesis
    by (simp add: status_response_def)
qed

section \<open>Failing moves\<close>

lemma moveSource_logs_grow:
  assumes "moveSource e token p d st = (r, st1)"
  shows "\<exists>ws. logs st1 = logs st @ ws"
proof (cases "encodedSourcePath (to_string p)")
  case None
  with assms show ?thesis by (auto simp: moveSource_def Let_def called_def)
next
  case (Some encoded)
  let ?f = "daFetch e token (js ''/move'' @ encoded)
              \<lparr>opt_method = Some (js ''POST''),
               opt_body = Some (formData_append [] (js ''destination'') d)\<rparr>
              (called (MoveSource p d) st)"
  obtain r0 st0 where f: "?f = (r0, st0)"
    by (cases ?f)
  have "st1 = st0"
    using assms Some f by (cases r0) (simp_all add: moveSource_def Let_def)
  with daFetch_effects(5) [OF f] show ?thesis
    by (auto simp: called_def)
qed

lemma move_loop_logs_grow:
  "\<exists>ws. logs (snd (move_loop e token org repo b sources n st)) = logs st @ ws"
proof (induction sources arbitrary: n st)
  case Nil
  show ?case by simp
next
  case (Cons s sources)
  show ?case
  proof (cases s rule: source_cases)
    case reserved
    from Cons.IH [of n "log_entry (Info_skipping_reserved (name s)) st"] show ?thesis
      by (simp only: move_loop_reserved [OF reserved]) (auto simp: log_entry_def)
  next
    case malformed
    from Cons.IH [of n "log_entry (Warning_missing_properties s) st"] show ?thesis
      by (simp only: move_loop_malformed [OF malformed]) (auto simp: log_entry_def)
  next
    case eligible
    obtain r st1 where m: "moveSource e token (path s) (destPath org repo b s) st = (r, st1)"
      by (cases "moveSource e token (path s) (destPath org repo b s) st")
    obtain ws where w: "logs st1 = logs st @ ws"
      using moveSource_logs_grow [OF m] by blast
    show ?thesis
    proof (cases r)
      case (Inl err)
      from Cons.IH [of n "log_entry (Warning_move_failed (path s) (backup_name b) err) st1"] w
      show ?thesis
        by (simp only: move_loop_failed [OF eligible m [unfolded Inl]]) (auto simp: log_entry_def)
    next
      case (Inr u)
      from Cons.IH [of "n + 1" "log_entry (Info_moved (path s) (destPath org repo b s)) st1"] w
      show ?thesis
        by (simp only: move_loop_moved [OF eligible m [unfolded Inr]]) (auto simp: log_entry_def)
    qed
  qed
qed

lemma listSources_filter_logs:
  assumes "listSources e token org repo p st = (r, st1)" and "\<And>n t. \<not> P (Warning_api_error n t)"
  shows "filter P (logs st1) = filter P (logs st)"
proof -
  let ?f = "daFetch e token (list_endpoint org repo p) no_options
              (called (ListSources org repo p) st)"
  obtain r0 where f: "?f = (r0, st1)"
    using listSources_state [OF assms(1)] by (cases ?f) simp
  have "filter P (logs st1) = filter P (logs (called (ListSources org repo p) st))"
    by (rule daFetch_filter_logs [OF f]) (rule assms(2))
  then show ?thesis
    by (simp add: called_def)
qed

lemma createBackupFolder_filter_logs:
  assumes "createBackupFolder e token org repo parentPath st = (r, st1)"
    and "\<And>n t. \<not> P (Warning_api_error n t)" and "\<And>v. \<not> P (Info_created v)"
  shows "filter P (logs st1) = filter P (logs st)"
proof -
  let ?name = "js ''backup-'' @ timestamp (now e)"
  let ?path = "if parentPath \<noteq> [] then parentPath @ js ''/'' @ ?name else ?name"
  let ?f = "daFetch e token (js ''/source/'' @ org @ js ''/'' @ repo @ js ''/'' @ ?path)
              \<lparr>opt_method = Some (js ''POST''), opt_body = None\<rparr>
              (called (CreateBackupFolder org repo parentPath) st)"
  obtain r0 st0 where f: "?f = (r0, st0)"
    by (cases ?f)
  have "st1 = st0 \<or> st1 = log_entry (Info_created ?name) st0"
    using assms(1) f by (cases r0) (simp_all add: createBackupFolder_def Let_def)
  moreover have "filter P (logs st0)
                 = filter P (logs (called (CreateBackupFolder org repo parentPath) st))"
    by (rule daFetch_filter_logs [OF f]) (rule assms(2))
  ultimately show ?thesis
    using assms(3) by (auto simp: called_def log_entry_def)
qed

lemma logs_before_loop:
  assumes "listSources e token org repo p (log_entry (Info_starting org repo p) init)
           = (Inr sources, st2)"
    and "createBackupFolder e token org repo p (log_sources sources st2) = (r, st4)"
  shows "filter is_moved (logs st4) = []" and "filter is_move_failed (logs st4) = []"
proof -
  have n: "filter P (map (\<lambda>(i, s). Info_source i s) xs) = []"
    if "\<And>i s. \<not> P (Info_source i s)" for P and xs :: "(nat \<times> source) list"
    using that by (induction xs) auto
  have "filter is_moved (logs st2) = []" "filter is_move_failed (logs st2) = []"
    using listSources_filter_logs [OF assms(1), of is_moved]
      listSources_filter_logs [OF assms(1), of is_move_failed]
    by (simp_all add: log_entry_def init_def)
  then have "filter is_moved (logs (log_sources sources st2)) = []"
    "filter is_move_failed (logs (log_sources sources st2)) = []"
    by (simp_all add: log_sources_def n)
  then show "filter is_moved (logs st4) = []" and "filter is_move_failed (logs st4) = []"
    using createBackupFolder_filter_logs [OF assms(2), of is_moved]
      createBackupFolder_filter_logs [OF assms(2), of is_move_failed]
    by simp_all
qed


lemma move_loop_outputs:
  "outputs (snd (move_loop e token org repo b sources n st)) = outputs st
   \<and> failed (snd (move_loop e token org repo b sources n st)) = failed st"
proof (induction sources arbitrary: n st)
  case Nil
  show ?case by simp
next
  case (Cons s sources)
  show ?case
  proof (cases s rule: source_cases)
    case reserved
    then show ?thesis
      by (simp only: move_loop_reserved Cons.IH) (simp add: log_entry_def)
  next
    case malformed
    then show ?thesis
      by (simp only: move_loop_malformed Cons.IH) (simp add: log_entry_def)
  next
    case eligible
    obtain r st1 where m: "moveSource e token (path s) (destPath org repo b s) st = (r, st1)"
      by (cases "moveSource e token (path s) (destPath org repo b s) st")
    note o = moveSource_effects(2,3) [OF m]
    show ?thesis
    proof (cases r)
      case (Inl err)
      with m eligible o show ?thesis
        by (simp only: move_loop_failed Cons.IH) (simp add: log_entry_def)
    next
      case (Inr u)
      with m eligible o show ?thesis
        by (simp only: move_loop_moved Cons.IH) (simp add: log_entry_def)
    qed
  qed
qed

lemma moveSource_requests_only:
  assumes "requests st = requests st'" and "moveSource e token p d st = (r, st1)"
  shows "\<exists>st1'. moveSource e token p d st' = (r, st1') \<and> requests st1 = requests st1'"
proof (cases "encodedSourcePath (to_string p)")
  case None
  with assms show ?thesis by (auto simp: moveSource_def Let_def called_def)
next
  case (Some encoded)
  let ?o = "\<lparr>opt_method = Some (js ''POST''),
             opt_body = Some (formData_append [] (js ''destination'') d)\<rparr>"
  let ?c = "called (MoveSource p d)"
  obtain r0 ws where
    sh: "\<And>st''. requests st'' = requests (?c st) \<Longrightarrow>
       daFetch e token (js ''/move'' @ encoded) ?o st''
       = (r0, st''\<lparr>requests := requests st'' @ [request_of token (js ''/move'' @ encoded) ?o],
                  logs := logs st'' @ ws\<rparr>)"
    using daFetch_shape [where st = "?c st" and e = e and token = token
        and endpoint = "js ''/move'' @ encoded" and opts = ?o] by blast
  have a: "daFetch e token (js ''/move'' @ encoded) ?o (?c st)
       = (r0, (?c st)\<lparr>requests := requests (?c st) @ [request_of token (js ''/move'' @ encoded) ?o],
                  logs := logs (?c st) @ ws\<rparr>)"
    by (rule sh) simp
  have b: "daFetch e token (js ''/move'' @ encoded) ?o (?c st')
       = (r0, (?c st')\<lparr>requests := requests (?c st') @ [request_of token (js ''/move'' @ encoded) ?o],
                  logs := logs (?c st') @ ws\<rparr>)"
    by (rule sh) (simp add: assms(1) called_def)
  show ?thesis
    using assms Some a b by (cases r0) (auto simp: moveSource_def Let_def called_def)
qed

lemma move_loop_moves_succeeded:
  assumes "requests st = requests st'"
  shows "fst (move_loop e token org repo b sources n st)
         = n + moves_succeeded e token org repo b sources st'"
  using assms
proof (induction sources arbitrary: n st st')
  case Nil
  show ?case by simp
next
  case (Cons s sources)
  show ?case
  proof (cases s rule: source_cases)
    case reserved
    have "requests (log_entry (Info_skipping_reserved (name s)) st) = requests st'"
      using Cons.prems by (simp add: log_entry_def)
    from Cons.IH [OF this] source_kinds(1) [OF reserved] show ?thesis
      by (simp only: move_loop_reserved [OF reserved]) simp
  next
    case malformed
    have "requests (log_entry (Warning_missing_properties s) st) = requests st'"
      using Cons.prems by (simp add: log_entry_def)
    from Cons.IH [OF this] source_kinds(2) [OF malformed] show ?thesis
      by (simp only: move_loop_malformed [OF malformed]) simp
  next
    case eligible
    obtain r st1 where m: "moveSource e token (path s) (destPath org repo b s) st = (r, st1)"
      by (cases "moveSource e token (path s) (destPath org repo b s) st")
    obtain st1' where m': "moveSource e token (path s) (destPath org repo b s) st' = (r, st1')"
      and q: "requests st1 = requests st1'"
      using moveSource_requests_only [OF Cons.prems m] by blast
    show ?thesis
    proof (cases r)
      case (Inl err)
      have "requests (log_entry (Warning_move_failed (path s) (backup_name b) err) st1)
            = requests st1'"
        using q by (simp add: log_entry_def)
      from Cons.IH [OF this] eligible m' Inl show ?thesis
        by (simp only: move_loop_failed [OF eligible m [unfolded Inl]]) simp
    next
      case (Inr u)
      have "requests (log_entry (Info_moved (path s) (destPath org repo b s)) st1)
            = requests st1'"
        using q by (simp add: log_entry_def)
      from Cons.IH [OF this] eligible m' Inr show ?thesis
        by (simp only: move_loop_moved [OF eligible m [unfolded Inr]]) simp
    qed
  qed
qed

lemma daFetch_accepted:
  "isl (fst (daFetch e token endpoint opts st))
   = (\<not> accepted (fetch e (requests st) (request_of token endpoint opts)))"
  by (simp add: daFetch_def Let_def accepted_def split: fetch_result.split option.split)

lemma moveSource_accepted:
  assumes "moveSource e token (path s) (destPath org repo b s) st = (r, st1)"
  shows "isl r = (\<not> (encodable s
                      \<and> accepted (fetch e (requests st) (move_request token org repo b s))))"
proof (cases "encodedSourcePath (to_string (path s))")
  case None
  with assms show ?thesis by (auto simp: moveSource_def Let_def encodable_def)
next
  case (Some encoded)
  let ?o = "\<lparr>opt_method = Some (js ''POST''),
             opt_body = Some (formData_append [] (js ''destination'') (destPath org repo b s))\<rparr>"
  let ?st0 = "called (MoveSource (path s) (destPath org repo b s)) st"
  obtain r0 st0 where f: "daFetch e token (js ''/move'' @ encoded) ?o ?st0 = (r0, st0)"
    by (cases "daFetch e token (js ''/move'' @ encoded) ?o ?st0")
  have "isl r = isl r0"
    using assms Some f by (cases r0) (auto simp: moveSource_def Let_def)
  moreover have "isl r0 = (\<not> accepted (fetch e (requests ?st0)
                                 (request_of token (js ''/move'' @ encoded) ?o)))"
    using daFetch_accepted [of e token "js ''/move'' @ encoded" ?o ?st0] f by simp
  ultimately show ?thesis
    using Some by (simp add: encodable_def move_request_def called_def)
qed

lemma move_loop_count_accepted:
  "fst (move_loop e token org repo b sources n st)
   = n + count_accepted e (requests st)
           (map (move_request token org repo b)
              (filter (\<lambda>s. eligible s \<and> encodable s) sources))"
proof (induction sources arbitrary: n st)
  case Nil
  show ?case by simp
next
  case (Cons s sources)
  show ?case
  proof (cases s rule: source_cases)
    case reserved
    from Cons.IH [of n "log_entry (Info_skipping_reserved (name s)) st"]
      source_kinds(1) [OF reserved] show ?thesis
      by (simp only: move_loop_reserved [OF reserved]) (simp add: log_entry_def)
  next
    case malformed
    from Cons.IH [of n "log_entry (Warning_missing_properties s) st"]
      source_kinds(2) [OF malformed] show ?thesis
      by (simp only: move_loop_malformed [OF malformed]) (simp add: log_entry_def)
  next
    case eligible
    obtain r st1 where m: "moveSource e token (path s) (destPath org repo b s) st = (r, st1)"
      by (cases "moveSource e token (path s) (destPath org repo b s) st")
    note q = moveSource_requests [OF m] and a = moveSource_accepted [OF m]
    show ?thesis
    proof (cases r)
      case (Inl err)
      from Cons.IH [of n "log_entry (Warning_move_failed (path s) (backup_name b) err) st1"]
        eligible q a Inl show ?thesis
        by (simp only: move_loop_failed [OF eligible m [unfolded Inl]])
           (auto simp: log_entry_def)
    next
      case (Inr u)
      from Cons.IH [of "n + 1" "log_entry (Info_moved (path s) (destPath org repo b s)) st1"]
        eligible q a Inr show ?thesis
        by (simp only: move_loop_moved [OF eligible m [unfolded Inr]])
           (auto simp: log_entry_def)
    qed
  qed
qed


text \<open>
  Claim C5. Take a run that lists \<open>pre @ s # post\<close> and creates its folder, and let the
  move of the item \<open>s\<close> fail. The loop goes on with the items after \<open>s\<close>, the count
  unchanged; the move operation is called for every item that is neither reserved nor
  malformed, in listing order; the run does not fail and sets \<open>backup_folder_name\<close>. The
  count the run reports is the number of calls of \<open>moveSource\<close> that returned normally,
  which is the number of move requests the server answered acceptably and the number of
  moves logged as done; with the moves logged as failed it makes up the moves attempted,
  and it is less than that number.
\<close>

theorem failed_move_does_not_abort:
  assumes "get_inputs e = Inr (org, repo, p)"
    and "get_token e = Inr token"
    and "listSources e token org repo p (log_entry (Info_starting org repo p) init)
         = (Inr (pre @ s # post), st2)"
    and "createBackupFolder e token org repo p (log_sources (pre @ s # post) st2) = (Inr b, st4)"
    and "move_loop e token org repo b pre 0 st4 = (k, st5)"
    and "eligible s"
    and "moveSource e token (path s) (destPath org repo b s) st5 = (Inl err, st6)"
  shows "move_loop e token org repo b (pre @ s # post) 0 st4
         = move_loop e token org repo b post k
             (log_entry (Warning_move_failed (path s) (backup_name b) err) st6)
       \<and> filter is_move (calls (run e))
         = map (move_call org repo b) (filter eligible (pre @ s # post))
       \<and> failed (run e) = None
       \<and> outputs (run e) = [Backup_folder_name (backup_name b)]
       \<and> last (logs (run e))
         = Info_completed (moves_succeeded e token org repo b (pre @ s # post) st4)
             (backup_name b)
       \<and> moves_succeeded e token org repo b (pre @ s # post) st4
         = count_accepted e (take 2 (requests (run e))) (drop 2 (requests (run e)))
       \<and> moves_succeeded e token org repo b (pre @ s # post) st4
         = length (filter is_moved (logs (run e)))
       \<and> length (filter is_moved (logs (run e))) + length (filter is_move_failed (logs (run e)))
         = length (filter eligible (pre @ s # post))
       \<and> moves_succeeded e token org repo b (pre @ s # post) st4
         < length (filter eligible (pre @ s # post))"
proof -
  let ?all = "pre @ s # post"
  let ?w = "log_entry (Warning_move_failed (path s) (backup_name b) err) st6"
  have ne: "?all \<noteq> []" by simp
  obtain n st7 where l: "move_loop e token org repo b ?all 0 st4 = (n, st7)"
    by (cases "move_loop e token org repo b ?all 0 st4")
  have step: "move_loop e token org repo b ?all 0 st4 = move_loop e token org repo b post k ?w"
    by (simp only: move_loop_append assms(5) prod.case move_loop_failed [OF assms(6,7)])
  have r: "run e = setOutput (Backup_folder_name (backup_name b))
                    (log_entry (Info_completed n (backup_name b)) st7)"
    by (rule run_reaches_loop [OF assms(1-3) ne assms(4) l])
  note s4 = state_before_loop [OF assms(3,4)] and l4 = logs_before_loop [OF assms(3,4)]
  have c: "calls st7 = calls st4 @ map (move_call org repo b) (filter eligible ?all)"
    using move_loop_calls [of e token org repo b ?all 0 st4] l by simp
  have moves: "filter is_move (calls (run e)) = map (move_call org repo b) (filter eligible ?all)"
    unfolding r using c s4(1)
    by (simp add: setOutput_def log_entry_def move_call_def filter_map comp_def)
  have "outputs st7 = outputs st4" "failed st7 = failed st4"
    using move_loop_outputs [of e token org repo b ?all 0 st4] l by simp_all
  then have outs: "failed (run e) = None" "outputs (run e) = [Backup_folder_name (backup_name b)]"
    unfolding r using s4(3,4) by (simp_all add: setOutput_def log_entry_def)
  have lg: "logs (run e) = logs st7 @ [Info_completed n (backup_name b)]"
    unfolding r by (simp add: setOutput_def log_entry_def)
  have rq: "requests (run e)
            = requests st4
              @ map (move_request token org repo b)
                  (filter (\<lambda>s. eligible s \<and> encodable s) ?all)"
    unfolding r using move_loop_requests [of e token org repo b ?all 0 st4] l
    by (simp add: setOutput_def log_entry_def)
  have ms: "n = moves_succeeded e token org repo b ?all st4"
    using move_loop_moves_succeeded [of st4 st4 e token org repo b ?all 0] l by simp
  have ca: "n = count_accepted e (take 2 (requests (run e))) (drop 2 (requests (run e)))"
    using move_loop_count_accepted [of e token org repo b ?all 0 st4] l s4(2)
    unfolding rq by simp
  have n: "n = length (filter is_moved (logs st7))"
    using move_loop_count [of e token org repo b ?all 0 st4] l l4(1) by simp
  have total: "length (filter is_moved (logs st7)) + length (filter is_move_failed (logs st7))
               = length (filter eligible ?all)"
    using move_loop_outcomes [of e token org repo b ?all 0 st4] l l4 by simp
  have "\<exists>ws. logs st7 = logs ?w @ ws"
    using move_loop_logs_grow [of e token org repo b post k ?w] l step by simp
  then have "0 < length (filter is_move_failed (logs st7))"
    by (auto simp: log_entry_def)
  with total n have less: "n < length (filter eligible ?all)"
    by linarith
  have a: "last (logs (run e)) = Info_completed n (backup_name b)"
    unfolding lg by simp
  have b: "length (filter is_moved (logs (run e))) + length (filter is_move_failed (logs (run e)))
           = length (filter eligible ?all)"
    unfolding lg using total by simp
  have d: "n = length (filter is_moved (logs (run e)))"
    unfolding lg using n by simp
  from step moves outs a b d less ca show ?thesis
    unfolding ms [symmetric] by (simp only: simp_thms)
qed

lemma example_move_request:
  "fetch (example_env a) (requests (called c st)) req = a (length (requests st))"
  by (simp add: example_fetch called_def)

lemma example_timestamp: "timestamp example_date = js ''2025-01-02T03-04-05''"
  by (simp add: timestamp_def toISOString_def example_date_def padded_def decimal.simps
      replace_colon_dot_def js_def)

text \<open>
  The run that lists \<open>index\<close> and \<open>nav\<close>, where the move of \<open>index\<close> is refused with
  status 500 and the move of \<open>nav\<close> succeeds: both moves are called, the run does not fail
  and reports one item moved.
\<close>

theorem failed_move_does_not_abort_witness:
  "get_inputs (example_env answers_first_move_fails) = Inr (js ''o'', js ''r'', [])
   \<and> get_token (example_env answers_first_move_fails) = Inr (js ''t'')
   \<and> eligible item_index
   \<and> (\<exists>st2 b st4 st6.
         listSources (example_env answers_first_move_fails) (js ''t'') (js ''o'') (js ''r'') []
           (log_entry (Info_starting (js ''o'') (js ''r'') []) init)
         = (Inr ([] @ item_index # [item_nav]), st2)
         \<and> createBackupFolder (example_env answers_first_move_fails) (js ''t'') (js ''o'')
             (js ''r'') [] (log_sources ([] @ item_index # [item_nav]) st2)
           = (Inr b, st4)
         \<and> moveSource (example_env answers_first_move_fails) (js ''t'') (path item_index)
             (destPath (js ''o'') (js ''r'') b item_index) st4
           = (Inl (Api_error 500 []), st6))
   \<and> length (filter is_move (calls (run (example_env answers_first_move_fails)))) = 2
   \<and> failed (run (example_env answers_first_move_fails)) = None
   \<and> last (logs (run (example_env answers_first_move_fails)))
     = Info_completed 1 (js ''backup-2025-01-02T03-04-05'')
   \<and> length (filter is_moved (logs (run (example_env answers_first_move_fails)))) = 1
   \<and> length (filter is_move_failed (logs (run (example_env answers_first_move_fails)))) = 1"
proof -
  let ?e = "example_env answers_first_move_fails"
  let ?st1 = "log_entry (Info_starting (js ''o'') (js ''r'') []) init"
  let ?all = "[] @ item_index # [item_nav]"
  note h1 = example_inputs(1) [of answers_first_move_fails]
    and h2 = example_inputs(2) [of answers_first_move_fails]
  have "\<exists>st2. listSources ?e (js ''t'') (js ''o'') (js ''r'') [] ?st1 = (Inr ?all, st2)"
    by (rule example_listing) (simp_all add: answers_first_move_fails_def log_entry_def init_def)
  then obtain st2 where h3: "listSources ?e (js ''t'') (js ''o'') (js ''r'') [] ?st1
                             = (Inr ?all, st2)"
    by blast
  have "length (requests st2) = 1"
    using listSources_effects(1) [OF h3] by (simp add: log_entry_def init_def)
  then have "answers_first_move_fails (length (requests (log_sources ?all st2)))
             = status_response 204"
    by (simp add: answers_first_move_fails_def log_sources_def)
  then obtain b st4 where h4: "createBackupFolder ?e (js ''t'') (js ''o'') (js ''r'') []
                                 (log_sources ?all st2) = (Inr b, st4)"
    using example_folder_created by blast
  have bn: "backup_name b = js ''backup-2025-01-02T03-04-05''"
    using createBackupFolder_result(1) [OF h4]
    by (simp add: example_env_def example_timestamp) (simp add: js_def)
  have h5: "move_loop ?e (js ''t'') (js ''o'') (js ''r'') b [] 0 st4 = (0, st4)"
    by simp
  note h6 = example_kinds(2)
  have q: "length (requests st4) = 2"
    by (rule state_before_loop(2) [OF h3 h4])
  have enc: "encodable item_index" "encodable item_nav"
    by (simp_all add: encodable_def encodedSourcePath_def item_index_def item_nav_def js_def
        is_unescaped_def is_trailing_surrogate_def is_leading_surrogate_def)
  then obtain encoded where e1: "encodedSourcePath (to_string (path item_index)) = Some encoded"
    by (auto simp: encodable_def)
  have "fetch ?e (requests (called c st4)) req = status_response 500" for c req
    using q by (simp add: example_move_request answers_first_move_fails_def)
  from daFetch_status_500 [OF this]
  have "\<exists>st6. moveSource ?e (js ''t'') (path item_index)
               (destPath (js ''o'') (js ''r'') b item_index) st4 = (Inl (Api_error 500 []), st6)"
    by (simp add: moveSource_def Let_def e1)
  then obtain st6 where h7: "moveSource ?e (js ''t'') (path item_index)
               (destPath (js ''o'') (js ''r'') b item_index) st4 = (Inl (Api_error 500 []), st6)"
    by blast
  have q6: "length (requests st6) = 3"
    using moveSource_requests [OF h7] enc(1) q by simp
  obtain r8 st8 where h8: "moveSource ?e (js ''t'') (path item_nav)
               (destPath (js ''o'') (js ''r'') b item_nav) st6 = (r8, st8)"
    by (cases "moveSource ?e (js ''t'') (path item_nav)
               (destPath (js ''o'') (js ''r'') b item_nav) st6")
  have "accepted (fetch ?e (requests st6) (move_request (js ''t'') (js ''o'') (js ''r'') b item_nav))"
    using q6
    by (simp add: example_fetch answers_first_move_fails_def status_response_def accepted_def
        ok_def)
  with moveSource_accepted [OF h8] enc(2) obtain u where r8: "r8 = Inr u"
    by (cases r8) auto
  have ms: "moves_succeeded ?e (js ''t'') (js ''o'') (js ''r'') b ?all st4 = 1"
    using h7 h8 r8 example_kinds(2,3) by simp
  from failed_move_does_not_abort [OF h1 h2 h3 h4 h5 h6 h7] h1 h2 h3 h4 h6 h7 example_kinds(3)
  show ?thesis
    unfolding ms bn by auto
qed

end
